theory Spec2Isabelle
  imports Main "HOL-Library.Word"
begin

section \<open>JavaScript strings\<close>

text \<open>
  A JavaScript string is a sequence of 16-bit code units. None of the regular expressions of
  \<^verbatim>\<open>tokenize.js\<close> carries the \<^verbatim>\<open>u\<close> flag, so every character class and every
  \<^verbatim>\<open>.\<close> ranges over single code units.
\<close>

type_synonym jschar = "16 word"
type_synonym jsstring = "jschar list"

definition js :: "string \<Rightarrow> jsstring" where
  "js str = map of_char str"

abbreviation TAB :: jschar where "TAB \<equiv> 0x09"
abbreviation LF :: jschar where "LF \<equiv> 0x0A"
abbreviation CR :: jschar where "CR \<equiv> 0x0D"
abbreviation NUL :: jschar where "NUL \<equiv> 0x00"
abbreviation space :: jschar where "space \<equiv> 0x20"
abbreviation dquote :: jschar where "dquote \<equiv> 0x22"
abbreviation squote :: jschar where "squote \<equiv> 0x27"
abbreviation star :: jschar where "star \<equiv> 0x2A"
abbreviation slash :: jschar where "slash \<equiv> 0x2F"
abbreviation bslash :: jschar where "bslash \<equiv> 0x5C"

text \<open>\<^verbatim>\<open>String.prototype.charAt\<close>: the one-character string at \<open>pos\<close>, or the empty string.\<close>

definition String_charAt :: "jsstring \<Rightarrow> nat \<Rightarrow> jsstring" where
  "String_charAt str pos = (if pos < length str then [str ! pos] else [])"

text \<open>
  \<^verbatim>\<open>String.prototype.substring\<close>: both indices are clamped to the length and swapped when
  the first exceeds the second.
\<close>

definition substring :: "jsstring \<Rightarrow> nat \<Rightarrow> nat \<Rightarrow> jsstring" where
  "substring str a b = (let lo = min a b; hi = max a b in take (hi - lo) (drop lo str))"

text \<open>
  The line terminators of ECMAScript (LF, CR, U+2028, U+2029): the characters that
  \<^verbatim>\<open>.\<close> does not match.
\<close>

definition is_line_terminator :: "jschar \<Rightarrow> bool" where
  "is_line_terminator c \<longleftrightarrow> c = LF \<or> c = CR \<or> c = 0x2028 \<or> c = 0x2029"

text \<open>
  The class \<^verbatim>\<open>\s\<close>, which is also what \<^verbatim>\<open>String.prototype.trim\<close> strips:
  ECMAScript's WhiteSpace (TAB, VT, FF, U+FEFF and the space separators) and its line
  terminators.
\<close>

definition is_whitespace :: "jschar \<Rightarrow> bool" where
  "is_whitespace c \<longleftrightarrow>
     c = TAB \<or> c = LF \<or> c = 0x0B \<or> c = 0x0C \<or> c = CR \<or> c = space \<or> c = 0xA0 \<or>
     c = 0x1680 \<or> (0x2000 \<le> c \<and> c \<le> 0x200A) \<or> c = 0x2028 \<or> c = 0x2029 \<or>
     c = 0x202F \<or> c = 0x205F \<or> c = 0x3000 \<or> c = 0xFEFF"

text \<open>\<^verbatim>\<open>whitespaceRe = /\s/\<close>, used through \<^verbatim>\<open>test\<close>: some code unit is whitespace.\<close>

definition whitespaceRe_test :: "jsstring \<Rightarrow> bool" where
  "whitespaceRe_test str = list_ex is_whitespace str"

text \<open>The character class of \<^verbatim>\<open>delimRe = /[\s{}=;:[\],'"()<>]/g\<close>.\<close>

definition is_delim :: "jschar \<Rightarrow> bool" where
  "is_delim c \<longleftrightarrow>
     is_whitespace c \<or> c = 0x7B \<or> c = 0x7D \<or> c = 0x3D \<or> c = 0x3B \<or> c = 0x3A \<or>
     c = 0x5B \<or> c = 0x5D \<or> c = 0x2C \<or> c = squote \<or> c = dquote \<or> c = 0x28 \<or>
     c = 0x29 \<or> c = 0x3C \<or> c = 0x3E"

text \<open>
  \<^verbatim>\<open>delimRe.test\<close> on a string of at most one character with \<^verbatim>\<open>lastIndex\<close> 0.
  The expression is global, so \<^verbatim>\<open>test\<close> starts at \<^verbatim>\<open>lastIndex\<close>; \<^verbatim>\<open>next\<close>
  sets it to 0 before the first test, a failed test resets it to 0, and the token loop stops
  at the first test that succeeds, so every test of the source runs from index 0.
\<close>

definition delimRe_test :: "jsstring \<Rightarrow> bool" where
  "delimRe_test str = list_ex is_delim str"

text \<open>\<^verbatim>\<open>String.prototype.trim\<close>.\<close>

definition trim :: "jsstring \<Rightarrow> jsstring" where
  "trim str = rev (dropWhile is_whitespace (rev (dropWhile is_whitespace str)))"

text \<open>
  \<^verbatim>\<open>str.replace(setCommentRe, "")\<close> with \<^verbatim>\<open>setCommentRe = /^ *[*/]+ */\<close>: spaces,
  then at least one star or slash, then spaces, all at the start of the string; a string
  that does not start so is left as it is.
\<close>

definition setCommentRe_strip :: "jsstring \<Rightarrow> jsstring" where
  "setCommentRe_strip str =
     (let rest = dropWhile (\<lambda>c. c = space) str in
      if takeWhile (\<lambda>c. c = star \<or> c = slash) rest = [] then str
      else dropWhile (\<lambda>c. c = space) (dropWhile (\<lambda>c. c = star \<or> c = slash) rest))"

text \<open>\<^verbatim>\<open>str.split(setCommentSplitRe)\<close> with \<^verbatim>\<open>setCommentSplitRe = /\n/g\<close>.\<close>

fun split_lines :: "jsstring \<Rightarrow> jsstring list" where
  "split_lines [] = [[]]"
| "split_lines (c # cs) =
     (if c = LF then [] # split_lines cs
      else (case split_lines cs of [] \<Rightarrow> [[c]] | l # ls \<Rightarrow> (c # l) # ls))"

text \<open>\<^verbatim>\<open>lines.join("\n")\<close>.\<close>

fun join_lines :: "jsstring list \<Rightarrow> jsstring" where
  "join_lines [] = []"
| "join_lines [l] = l"
| "join_lines (l # ls) = l @ LF # join_lines ls"

section \<open>The escape decoder\<close>

text \<open>
  \<^verbatim>\<open>str.replace(unescapeRe, f)\<close> with \<^verbatim>\<open>unescapeRe = /\\(.?)/g\<close>: each backslash starts a
  match; the group takes the next code unit unless that is a line terminator or the string
  has ended, in which case the group is empty and only the backslash is matched. The
  callback receives the match and the group.
\<close>

fun unescapeRe_replace :: "(jsstring \<Rightarrow> jsstring \<Rightarrow> jsstring) \<Rightarrow> jsstring \<Rightarrow> jsstring" where
  "unescapeRe_replace f [] = []"
| "unescapeRe_replace f (c # cs) =
     (if c = bslash then
        (case cs of
           [] \<Rightarrow> f [c] []
         | d # ds \<Rightarrow>
             if is_line_terminator d then f [c] [] @ unescapeRe_replace f cs
             else f [c, d] [d] @ unescapeRe_replace f ds)
      else c # unescapeRe_replace f cs)"

definition unescapeMap :: "jsstring \<rightharpoonup> jsstring" where
  "unescapeMap = map_of [(js ''0'', [NUL]), (js ''r'', [CR]), (js ''n'', [LF]), (js ''t'', [TAB])]"

definition unescape :: "jsstring \<Rightarrow> jsstring" where
  "unescape str =
     unescapeRe_replace
       (\<lambda>m0 m1.
          if m1 = [bslash] \<or> m1 = [] then m1
          else (case unescapeMap m1 of None \<Rightarrow> [] | Some v \<Rightarrow> if v \<noteq> [] then v else []))
       str"

section \<open>The string patterns\<close>

text \<open>
  \<^verbatim>\<open>stringDoubleRe = /(?:"([^"\\]*(?:\\.[^"\\]*)*)")/g\<close> and its single-quote twin, read from
  just behind an opening quote \<open>q\<close>: a code unit other than the quote and the backslash is
  taken by one of the two runs \<^verbatim>\<open>[^"\\]*\<close>, a backslash must be followed by a code unit that
  \<^verbatim>\<open>.\<close> matches, and the first quote met outside such a pair closes the match. The runs
  are greedy and every code unit fits one alternative only, so backtracking never finds
  another match from the same start. The result is the group and what follows the match.
\<close>

fun stringRe_body :: "jschar \<Rightarrow> jsstring \<Rightarrow> (jsstring \<times> jsstring) option" where
  "stringRe_body q [] = None"
| "stringRe_body q (c # cs) =
     (if c = q then Some ([], cs)
      else if c = bslash then
        (case cs of
           [] \<Rightarrow> None
         | d # ds \<Rightarrow>
             if is_line_terminator d then None
             else map_option (\<lambda>(body, rest). (c # d # body, rest)) (stringRe_body q ds))
      else map_option (\<lambda>(body, rest). (c # body, rest)) (stringRe_body q cs))"

text \<open>
  \<^verbatim>\<open>re.exec(source)\<close> for a global expression is not anchored: it tries every start from
  \<^verbatim>\<open>lastIndex\<close> on and returns the first match, with \<^verbatim>\<open>lastIndex\<close> set behind it.
\<close>

fun stringRe_search :: "jschar \<Rightarrow> jsstring \<Rightarrow> (jsstring \<times> jsstring) option" where
  "stringRe_search q [] = None"
| "stringRe_search q (c # cs) =
     (if c = q then
        (case stringRe_body q cs of
           Some m \<Rightarrow> Some m
         | None \<Rightarrow> stringRe_search q cs)
      else stringRe_search q cs)"

definition stringRe_exec :: "jschar \<Rightarrow> jsstring \<Rightarrow> nat \<Rightarrow> (jsstring \<times> nat) option" where
  "stringRe_exec q src lastIndex =
     (case stringRe_search q (drop lastIndex src) of
        None \<Rightarrow> None
      | Some (body, rest) \<Rightarrow> Some (body, length src - length rest))"

section \<open>The tokenizer state\<close>

record lexer =
  source :: jsstring
  offset :: nat
  line :: int
  commentType :: "jsstring option"
  commentText :: "jsstring option"
  commentLine :: int
  stack :: "jsstring list"
  stringDelim :: "jsstring option"

text \<open>\<^verbatim>\<open>Error("illegal " + subject + " (line " + line + ")")\<close>, kept as its two parts.\<close>

datatype error = Illegal jsstring int

definition tokenize :: "jsstring \<Rightarrow> lexer" where
  "tokenize src =
     \<lparr>source = src, offset = 0, line = 1, commentType = None, commentText = None,
      commentLine = 0, stack = [], stringDelim = None\<rparr>"

definition illegal :: "jsstring \<Rightarrow> lexer \<Rightarrow> error" where
  "illegal subject s = Illegal subject (line s)"

text \<open>A string or \<^verbatim>\<open>null\<close> used as a condition: \<^verbatim>\<open>null\<close> and \<^verbatim>\<open>""\<close> are falsy.\<close>

definition truthy :: "jsstring option \<Rightarrow> bool" where
  "truthy v = (case v of None \<Rightarrow> False | Some str \<Rightarrow> str \<noteq> [])"

definition charAt :: "lexer \<Rightarrow> nat \<Rightarrow> jsstring" where
  "charAt s pos = String_charAt (source s) pos"

definition push :: "jsstring \<Rightarrow> lexer \<Rightarrow> lexer" where
  "push token s = s\<lparr>stack := stack s @ [token]\<rparr>"

text \<open>
  \<^verbatim>\<open>readString\<close>; \<open>d\<close> is the pending delimiter, which \<^verbatim>\<open>next\<close> has just found set.
  \<^verbatim>\<open>offset - 1\<close> is the index of the opening quote.
\<close>

definition readString :: "jsstring \<Rightarrow> lexer \<Rightarrow> error + jsstring option \<times> lexer" where
  "readString d s =
     (let q = (if d = [squote] then squote else dquote) in
      case stringRe_exec q (source s) (offset s - 1) of
        None \<Rightarrow> Inl (illegal (js ''string'') s)
      | Some (body, lastIndex) \<Rightarrow>
          Inr (Some (unescape body),
               (push d (s\<lparr>offset := lastIndex\<rparr>))\<lparr>stringDelim := None\<rparr>))"

definition setComment :: "nat \<Rightarrow> nat \<Rightarrow> lexer \<Rightarrow> lexer" where
  "setComment start end s =
     (let lines = split_lines (substring (source s) (start + 1) end) in
      s\<lparr>commentType := Some (charAt s start),
        commentLine := line s,
        commentText := Some (trim (join_lines (map (\<lambda>l. trim (setCommentRe_strip l)) lines)))\<rparr>)"

section \<open>The scanner\<close>

text \<open>
  The whitespace loop of \<^verbatim>\<open>next\<close>. The flag tells that the loop left through
  \<^verbatim>\<open>return null\<close>.
\<close>

function skip_whitespace :: "lexer \<Rightarrow> lexer \<times> bool" where
  "skip_whitespace s =
     (let cur = charAt s (offset s) in
      if whitespaceRe_test cur then
        (let s1 = (if cur = [LF] then s\<lparr>line := line s + 1\<rparr> else s);
             s2 = s1\<lparr>offset := offset s1 + 1\<rparr>
         in if offset s2 = length (source s2) then (s2, True) else skip_whitespace s2)
      else (s, False))"
  by pat_completeness auto
termination
  by (relation "measure (\<lambda>s. length (source s) - offset s)")
     (auto simp: charAt_def String_charAt_def whitespaceRe_test_def split: if_splits)

text \<open>
  \<^verbatim>\<open>while (charAt(++offset) !== "\n") if (offset === length) return null;\<close>
  The flag tells that the loop left through \<^verbatim>\<open>return null\<close>. The source compares
  \<^verbatim>\<open>offset === length\<close>; the loop is entered behind a character that was just read, so
  the increment cannot step over \<^verbatim>\<open>length\<close>, and the model compares with \<open>\<le>\<close> to stop
  on every state.
\<close>

function line_comment_end :: "lexer \<Rightarrow> lexer \<times> bool" where
  "line_comment_end s =
     (let s1 = s\<lparr>offset := offset s + 1\<rparr> in
      if charAt s1 (offset s1) \<noteq> [LF] then
        (if length (source s1) \<le> offset s1 then (s1, True) else line_comment_end s1)
      else (s1, False))"
  by pat_completeness auto
termination
  by (relation "measure (\<lambda>s. length (source s) - offset s)") auto

text \<open>
  The \<^verbatim>\<open>do ... while (prev !== "*" || curr !== "/")\<close> loop of a block comment, with
  \<^verbatim>\<open>curr\<close> as the parameter \<open>cur\<close>; as above, \<open>\<le>\<close> stands for the source's \<^verbatim>\<open>===\<close>.
\<close>

function block_comment_end :: "jsstring \<Rightarrow> lexer \<Rightarrow> error + lexer" where
  "block_comment_end cur s =
     (let s1 = (if cur = [LF] then s\<lparr>line := line s + 1\<rparr> else s);
          s2 = s1\<lparr>offset := offset s1 + 1\<rparr>
      in if length (source s2) \<le> offset s2 then Inl (illegal (js ''comment'') s2)
         else (let prev = cur; cur' = charAt s2 (offset s2) in
               if prev \<noteq> [star] \<or> cur' \<noteq> [slash] then block_comment_end cur' s2
               else Inr s2))"
  by pat_completeness auto
termination
  by (relation "measure (\<lambda>(cur, s). length (source s) - offset s)")
     (auto split: if_splits)

text \<open>
  The \<^verbatim>\<open>do ... while (repeat)\<close> loop of \<^verbatim>\<open>next\<close>, which skips whitespace and comments.
  It leaves through \<^verbatim>\<open>return\<close>, through \<^verbatim>\<open>throw\<close>, or at the first character of a
  token.
\<close>

datatype scanned = Return "jsstring option" lexer | Throw error | Token lexer

function scan :: "lexer \<Rightarrow> scanned" where
  "scan s =
     (if offset s = length (source s) then Return None s
      else
        (case skip_whitespace s of
           (s1, True) \<Rightarrow> Return None s1
         | (s1, False) \<Rightarrow>
             if charAt s1 (offset s1) = [slash] then
               (let s2 = s1\<lparr>offset := offset s1 + 1\<rparr> in
                if offset s2 = length (source s2) then Throw (illegal (js ''comment'') s2)
                else if charAt s2 (offset s2) = [slash] then
                  (let start = offset s2 + 1;
                       isComment = (charAt s2 start = [slash])
                   in case line_comment_end s2 of
                        (s3, True) \<Rightarrow> Return None s3
                      | (s3, False) \<Rightarrow>
                          (let s4 = s3\<lparr>offset := offset s3 + 1\<rparr>;
                               s5 = (if isComment then setComment start (offset s4 - 1) s4
                                     else s4);
                               s6 = s5\<lparr>line := line s5 + 1\<rparr>
                           in scan s6))
                else if charAt s2 (offset s2) = [star] then
                  (let start = offset s2 + 1;
                       isComment = (charAt s2 start = [star])
                   in case block_comment_end (charAt s2 (offset s2)) s2 of
                        Inl e \<Rightarrow> Throw e
                      | Inr s3 \<Rightarrow>
                          (let s4 = s3\<lparr>offset := offset s3 + 1\<rparr>;
                               s5 = (if isComment then setComment start (offset s4 - 2) s4
                                     else s4)
                           in scan s5))
                else Return (Some [slash]) s2)
             else Token s1))"
  by pat_completeness auto

text \<open>\<^verbatim>\<open>while (end < length && !delimRe.test(charAt(end))) ++end;\<close>\<close>

function token_end :: "lexer \<Rightarrow> nat \<Rightarrow> nat" where
  "token_end s end =
     (if end < length (source s) \<and> \<not> delimRe_test (charAt s end) then token_end s (end + 1)
      else end)"
  by pat_completeness auto
termination
  by (relation "measure (\<lambda>(s, end). length (source s) - end)") auto

text \<open>
  \<^verbatim>\<open>next\<close>: the result is the token, \<open>None\<close> for \<^verbatim>\<open>null\<close>, with the state the call
  leaves; a \<^verbatim>\<open>throw\<close> is the left injection. \<open>next_scan\<close> is the part of \<^verbatim>\<open>next\<close>
  behind its two early returns; \<^verbatim>\<open>if (stringDelim)\<close> holds for a string that is not empty.
\<close>

definition next_scan :: "lexer \<Rightarrow> error + jsstring option \<times> lexer" where
  "next_scan s =
     (case scan s of
        Return r s' \<Rightarrow> Inr (r, s')
      | Throw e \<Rightarrow> Inl e
      | Token s1 \<Rightarrow>
          (let end = offset s1;
               delim = delimRe_test (charAt s1 end);
               end1 = end + 1;
               end2 = (if \<not> delim then token_end s1 end1 else end1);
               token = substring (source s1) (offset s1) end2;
               s2 = s1\<lparr>offset := end2\<rparr>;
               s3 = (if token = [dquote] \<or> token = [squote]
                     then s2\<lparr>stringDelim := Some token\<rparr> else s2)
           in Inr (Some token, s3)))"

definition next_tok :: "lexer \<Rightarrow> error + jsstring option \<times> lexer" where
  "next_tok s =
     (case stack s of
        t # ts \<Rightarrow> Inr (Some t, s\<lparr>stack := ts\<rparr>)
      | [] \<Rightarrow>
          (case stringDelim s of
             None \<Rightarrow> next_scan s
           | Some d \<Rightarrow> if d = [] then next_scan s else readString d s))"

text \<open>
  \<^verbatim>\<open>peek\<close>. \<^verbatim>\<open>stack[0]\<close> is read behind a \<^verbatim>\<open>push\<close> or on a stack found non-empty.
\<close>

definition stack0 :: "lexer \<Rightarrow> jsstring option" where
  "stack0 s = (case stack s of [] \<Rightarrow> None | t # ts \<Rightarrow> Some t)"

definition peek :: "lexer \<Rightarrow> error + jsstring option \<times> lexer" where
  "peek s =
     (if stack s = [] then
        (case next_tok s of
           Inl e \<Rightarrow> Inl e
         | Inr (None, s1) \<Rightarrow> Inr (None, s1)
         | Inr (Some token, s1) \<Rightarrow> (let s2 = push token s1 in Inr (stack0 s2, s2)))
      else Inr (stack0 s, s))"

text \<open>
  \<^verbatim>\<open>"token '" + actual + "', '" + expected + "' expected"\<close>; concatenation writes
  \<^verbatim>\<open>null\<close> as the four letters.
\<close>

definition token_subject :: "jsstring option \<Rightarrow> jsstring \<Rightarrow> jsstring" where
  "token_subject actual expected =
     js ''token '' @ [squote] @ (case actual of None \<Rightarrow> js ''null'' | Some t \<Rightarrow> t) @
     [squote] @ js '', '' @ [squote] @ expected @ [squote] @ js '' expected''"

definition skip :: "jsstring \<Rightarrow> bool \<Rightarrow> lexer \<Rightarrow> error + bool \<times> lexer" where
  "skip expected optional s =
     (case peek s of
        Inl e \<Rightarrow> Inl e
      | Inr (actual, s1) \<Rightarrow>
          if actual = Some expected then
            (case next_tok s1 of
               Inl e \<Rightarrow> Inl e
             | Inr (t, s2) \<Rightarrow> Inr (True, s2))
          else if \<not> optional then Inl (illegal (token_subject actual expected) s1)
          else Inr (False, s1))"

text \<open>
  \<^verbatim>\<open>cmnt\<close>; the argument is \<open>None\<close> when \<^verbatim>\<open>trailingLine\<close> is \<^verbatim>\<open>undefined\<close>.
  \<^verbatim>\<open>a && b || null\<close> is the text when the conditions hold and the text is truthy, and
  \<^verbatim>\<open>null\<close> otherwise.
\<close>

definition cmnt_result :: "jsstring option \<Rightarrow> lexer \<Rightarrow> jsstring option \<times> lexer" where
  "cmnt_result ret s =
     (if truthy ret
      then (ret, s\<lparr>commentType := None, commentText := None, commentLine := 0\<rparr>)
      else (ret, s))"

definition cmnt :: "int option \<Rightarrow> lexer \<Rightarrow> error + jsstring option \<times> lexer" where
  "cmnt trailingLine s =
     (case trailingLine of
        None \<Rightarrow>
          Inr (cmnt_result
                 (if commentLine s = line s - 1 \<and> truthy (commentText s) then commentText s
                  else None) s)
      | Some l \<Rightarrow>
          (case (if \<not> truthy (commentText s) then peek s else Inr (None, s)) of
             Inl e \<Rightarrow> Inl e
           | Inr (t, s1) \<Rightarrow>
               Inr (cmnt_result
                      (if commentLine s1 = l \<and> commentType s1 = Some [slash] \<and>
                          truthy (commentText s1)
                       then commentText s1 else None) s1)))"

section \<open>Reference definitions\<close>

text \<open>
  The escape decoder as the specification words it: the table of the four letters, the
  doubled backslash, every other escaped character dropped with its backslash, and a lone
  backslash at the end kept.
\<close>

definition escape_value :: "jschar \<Rightarrow> jsstring" where
  "escape_value d =
     (if d = 0x30 then [NUL] else if d = 0x72 then [CR] else if d = 0x6E then [LF]
      else if d = 0x74 then [TAB] else if d = bslash then [bslash] else [])"

fun unescape_spec :: "jsstring \<Rightarrow> jsstring" where
  "unescape_spec [] = []"
| "unescape_spec [c] = [c]"
| "unescape_spec (c # d # cs) =
     (if c = bslash then escape_value d @ unescape_spec cs else c # unescape_spec (d # cs))"

text \<open>
  The same decoder with the two readings that the source takes instead: a lone backslash at
  the end is dropped, and a backslash in front of a line terminator is dropped alone, the
  terminator staying in the text.
\<close>

fun unescape_amended :: "jsstring \<Rightarrow> jsstring" where
  "unescape_amended [] = []"
| "unescape_amended [c] = (if c = bslash then [] else [c])"
| "unescape_amended (c # d # cs) =
     (if c = bslash then
        (if is_line_terminator d then unescape_amended (d # cs)
         else escape_value d @ unescape_amended cs)
      else c # unescape_amended (d # cs))"

text \<open>
  The newline characters of a string, the part of a string between two offsets, and the
  difference between the line counter and the newline characters in front of the cursor.
\<close>

definition newlines :: "jsstring \<Rightarrow> int" where
  "newlines str = int (length (filter (\<lambda>c. c = LF) str))"

definition slice :: "jsstring \<Rightarrow> nat \<Rightarrow> nat \<Rightarrow> jsstring" where
  "slice str a b = take (b - a) (drop a str)"

definition line_excess :: "lexer \<Rightarrow> int" where
  "line_excess s = line s - newlines (take (offset s) (source s))"

text \<open>
  What scanning leaves alone: the source, the pushed-back tokens and the pending
  delimiter; the cursor only advances, and the line counter follows the newline characters
  that the cursor passes.
\<close>

definition scanned_from :: "lexer \<Rightarrow> lexer \<Rightarrow> bool" where
  "scanned_from s s' \<longleftrightarrow>
     source s' = source s \<and> stack s' = stack s \<and> stringDelim s' = stringDelim s \<and>
     offset s \<le> offset s' \<and> line_excess s' = line_excess s"

text \<open>The result of the last of \<open>n + 1\<close> successive calls of \<^verbatim>\<open>next\<close>.\<close>

fun next_tok_iter :: "nat \<Rightarrow> lexer \<Rightarrow> error + jsstring option \<times> lexer" where
  "next_tok_iter 0 s = next_tok s"
| "next_tok_iter (Suc n) s =
     (case next_tok s of Inl e \<Rightarrow> Inl e | Inr (t, s') \<Rightarrow> next_tok_iter n s')"

text \<open>The comment slot cleared.\<close>

definition clear_comment :: "lexer \<Rightarrow> lexer" where
  "clear_comment s = s\<lparr>commentType := None, commentText := None, commentLine := 0\<rparr>"

text \<open>
  A quoted literal as the specification words it, read from just behind the opening quote
  \<open>q\<close>: the body runs to the first quote of the same kind that no backslash escapes, a
  backslash escaping whatever character follows it; any character may stand in the body.
  The result is the raw body and what follows the closing quote.
\<close>

fun literal_body :: "jschar \<Rightarrow> jsstring \<Rightarrow> (jsstring \<times> jsstring) option" where
  "literal_body q [] = None"
| "literal_body q (c # cs) =
     (if c = q then Some ([], cs)
      else if c = bslash then
        (case cs of
           [] \<Rightarrow> None
         | d # ds \<Rightarrow> map_option (\<lambda>(body, rest). (c # d # body, rest)) (literal_body q ds))
      else map_option (\<lambda>(body, rest). (c # body, rest)) (literal_body q cs))"

text \<open>Some backslash of the body escapes a line terminator.\<close>

fun escapes_line_terminator :: "jsstring \<Rightarrow> bool" where
  "escapes_line_terminator [] = False"
| "escapes_line_terminator (c # cs) =
     (if c = bslash then
        (case cs of
           [] \<Rightarrow> False
         | d # ds \<Rightarrow> is_line_terminator d \<or> escapes_line_terminator ds)
      else escapes_line_terminator cs)"

text \<open>
  The state that \<^verbatim>\<open>peek\<close> leaves where \<^verbatim>\<open>next\<close> would return \<open>actual\<close> and leave
  \<open>s'\<close>: the state itself when a token is pushed back already, and otherwise \<open>s'\<close> with the
  token pushed back (\<open>s'\<close> itself at the end of input).
\<close>

definition peeked :: "lexer \<Rightarrow> jsstring option \<Rightarrow> lexer \<Rightarrow> lexer" where
  "peeked s actual s' =
     (if stack s \<noteq> [] then s
      else (case actual of None \<Rightarrow> s' | Some token \<Rightarrow> push token s'))"

section \<open>Termination of the scanning loop\<close>

text \<open>
  Each pass of the loop of \<^verbatim>\<open>next\<close> that goes round again has stepped over a comment, so
  the cursor has advanced; every inner loop keeps the source and never moves the cursor back.
\<close>

declare skip_whitespace.simps [simp del]
declare line_comment_end.simps [simp del]
declare block_comment_end.simps [simp del]

lemma skip_whitespace_source_offset:
  "skip_whitespace s = (s', b) \<Longrightarrow> source s' = source s \<and> offset s \<le> offset s'"
proof (induction s arbitrary: s' b rule: skip_whitespace.induct)
  case (1 s)
  note unfold = skip_whitespace.simps [of s]
  show ?case
  proof (cases "whitespaceRe_test (charAt s (offset s))")
    case False
    with "1.prems" show ?thesis by (simp add: unfold)
  next
    case ws: True
    define s2 where
      "s2 = (if charAt s (offset s) = [LF] then s\<lparr>line := line s + 1\<rparr> else s)
              \<lparr>offset := offset s + 1\<rparr>"
    have s2: "source s2 = source s" "offset s2 = offset s + 1"
      by (simp_all add: s2_def)
    show ?thesis
    proof (cases "offset s2 = length (source s2)")
      case True
      with "1.prems" ws have "s' = s2"
        by (simp add: unfold s2_def Let_def split: if_splits)
      with s2 show ?thesis by simp
    next
      case False
      with "1.prems" ws have "skip_whitespace s2 = (s', b)"
        by (simp add: unfold s2_def Let_def split: if_splits)
      moreover have "skip_whitespace s2 = (s', b) \<Longrightarrow>
          source s' = source s2 \<and> offset s2 \<le> offset s'"
        using "1.IH" [OF refl ws refl, of s2 s' b] False
        by (simp add: s2_def split: if_splits)
      ultimately show ?thesis using s2 by simp
    qed
  qed
qed

lemma line_comment_end_source_offset:
  "line_comment_end s = (s', b) \<Longrightarrow> source s' = source s \<and> offset s < offset s'"
proof (induction s arbitrary: s' b rule: line_comment_end.induct)
  case (1 s)
  note unfold = line_comment_end.simps [of s]
  let ?s1 = "s\<lparr>offset := offset s + 1\<rparr>"
  show ?case
  proof (cases "charAt ?s1 (offset ?s1) \<noteq> [LF] \<and> \<not> length (source ?s1) \<le> offset ?s1")
    case False
    with "1.prems" have "s' = ?s1"
      by (auto simp: unfold Let_def split: if_splits)
    then show ?thesis by simp
  next
    case True
    with "1.prems" have "line_comment_end ?s1 = (s', b)"
      by (simp add: unfold Let_def)
    with "1.IH" [OF refl _ _ this] True show ?thesis by simp
  qed
qed

lemma block_comment_end_source_offset:
  "block_comment_end cur s = Inr s' \<Longrightarrow> source s' = source s \<and> offset s < offset s'"
proof (induction cur s arbitrary: s' rule: block_comment_end.induct)
  case (1 cur s)
  note unfold = block_comment_end.simps [of cur s]
  define s2 where
    "s2 = (if cur = [LF] then s\<lparr>line := line s + 1\<rparr> else s)\<lparr>offset := offset s + 1\<rparr>"
  have s2: "source s2 = source s" "offset s2 = offset s + 1"
    by (simp_all add: s2_def)
  have unfold': "block_comment_end cur s =
      (if length (source s2) \<le> offset s2 then Inl (illegal (js ''comment'') s2)
       else if cur \<noteq> [star] \<or> charAt s2 (offset s2) \<noteq> [slash]
            then block_comment_end (charAt s2 (offset s2)) s2
            else Inr s2)"
    by (simp add: unfold s2_def Let_def)
  show ?case
  proof (cases "cur \<noteq> [star] \<or> charAt s2 (offset s2) \<noteq> [slash]")
    case False
    with "1.prems" have "s' = s2"
      by (auto simp: unfold' split: if_splits)
    with s2 show ?thesis by simp
  next
    case True
    with "1.prems" have len: "\<not> length (source s2) \<le> offset s2"
      and rec: "block_comment_end (charAt s2 (offset s2)) s2 = Inr s'"
      by (auto simp: unfold' split: if_splits)
    have "source s' = source s2 \<and> offset s2 < offset s'"
      using "1.IH" [OF refl refl _ refl refl, of s'] len True rec
      by (simp add: s2_def split: if_splits)
    with s2 show ?thesis by simp
  qed
qed

lemma setComment_source_offset [simp]:
  "source (setComment start end s) = source s" "offset (setComment start end s) = offset s"
  by (simp_all add: setComment_def Let_def)

termination scan
proof (relation "measure (\<lambda>s. length (source s) - offset s)", goal_cases)
  case 1
  show ?case by simp
next
  case (2 s s1 b s2 start isComment s3 b' s4 s5 s6)
  have a: "source s1 = source s" "offset s \<le> offset s1"
    using skip_whitespace_source_offset [of s s1 b] 2 by simp_all
  have b: "offset s1 < length (source s1)"
    using 2 by (simp add: charAt_def String_charAt_def split: if_splits)
  have c: "source s3 = source s2" "offset s2 < offset s3"
    using line_comment_end_source_offset [of s2 s3 b'] 2 by simp_all
  show ?case using a b c 2 by (auto split: if_splits)
next
  case (3 s s1 b s2 start isComment s3 s4 s5)
  have a: "source s1 = source s" "offset s \<le> offset s1"
    using skip_whitespace_source_offset [of s s1 b] 3 by simp_all
  have b: "offset s1 < length (source s1)"
    using 3 by (simp add: charAt_def String_charAt_def split: if_splits)
  have c: "source s3 = source s2" "offset s2 < offset s3"
    using block_comment_end_source_offset [of _ s2 s3] 3 by simp_all
  show ?case using a b c 3 by (auto split: if_splits)
qed

declare scan.simps [simp del]
declare token_end.simps [simp del]

section \<open>What the scanner computes\<close>

lemma newlines_append [simp]: "newlines (xs @ ys) = newlines xs + newlines ys"
  by (simp add: newlines_def)

lemma newlines_Nil [simp]: "newlines [] = 0"
  by (simp add: newlines_def)

lemma newlines_single [simp]: "newlines [c] = (if c = LF then 1 else 0)"
  by (simp add: newlines_def)

lemma newlines_take_Suc:
  "newlines (take (Suc n) str) = newlines (take n str) + newlines (String_charAt str n)"
  by (cases "n < length str") (simp_all add: String_charAt_def take_Suc_conv_app_nth)

lemma whitespace_not_Nil: "whitespaceRe_test str \<Longrightarrow> str \<noteq> []"
  by (auto simp: whitespaceRe_test_def)

lemma charAt_update [simp]:
  "charAt (s\<lparr>offset := n\<rparr>) p = charAt s p"
  "charAt (s\<lparr>line := l\<rparr>) p = charAt s p"
  "charAt (s\<lparr>stack := st\<rparr>) p = charAt s p"
  "charAt (s\<lparr>stringDelim := d\<rparr>) p = charAt s p"
  by (simp_all add: charAt_def)

lemma charAt_length: "charAt s p \<noteq> [] \<longleftrightarrow> p < length (source s)"
  by (simp add: charAt_def String_charAt_def)

lemma skip_whitespace_spec:
  "skip_whitespace s = (s', b) \<Longrightarrow>
     s' = s\<lparr>offset := offset s', line := line s'\<rparr> \<and> offset s \<le> offset s' \<and>
     line_excess s' = line_excess s \<and>
     (b \<longrightarrow> offset s' = length (source s)) \<and>
     (\<not> b \<longrightarrow> \<not> whitespaceRe_test (charAt s (offset s'))) \<and>
     (\<not> b \<longrightarrow> offset s \<noteq> length (source s) \<longrightarrow> offset s' \<noteq> length (source s)) \<and>
     (offset s \<le> length (source s) \<longrightarrow> offset s' \<le> length (source s))"
proof (induction "length (source s) - offset s" arbitrary: s rule: less_induct)
  case less
  note unfold = skip_whitespace.simps [of s]
  show ?case
  proof (cases "whitespaceRe_test (charAt s (offset s))")
    case False
    with less.prems have "s' = s" "b = False" by (simp_all add: unfold)
    with False show ?thesis by simp
  next
    case ws: True
    then have lt: "offset s < length (source s)"
      using whitespace_not_Nil charAt_length by blast
    define s2 where
      "s2 = (if charAt s (offset s) = [LF] then s\<lparr>line := line s + 1\<rparr> else s)
              \<lparr>offset := offset s + 1\<rparr>"
    have s2: "source s2 = source s" "offset s2 = offset s + 1"
      "s2 = s\<lparr>offset := offset s2, line := line s2\<rparr>"
      "line s2 = line s + newlines (charAt s (offset s))"
      using lt by (auto simp: s2_def charAt_def String_charAt_def)
    have ex: "line_excess s2 = line_excess s"
      using s2 by (simp add: line_excess_def newlines_take_Suc charAt_def)
    have unfold': "skip_whitespace s =
        (if offset s2 = length (source s2) then (s2, True) else skip_whitespace s2)"
      using ws by (simp add: unfold s2_def Let_def)
    show ?thesis
    proof (cases "offset s2 = length (source s2)")
      case True
      with less.prems have "s' = s2" "b = True" by (simp_all add: unfold')
      with s2 ex True show ?thesis by simp
    next
      case False
      with less.prems have rec: "skip_whitespace s2 = (s', b)" by (simp add: unfold')
      have "length (source s2) - offset s2 < length (source s) - offset s"
        using s2 lt by simp
      from less.hyps [OF this rec]
      have ih: "s' = s2\<lparr>offset := offset s', line := line s'\<rparr>" "offset s2 \<le> offset s'"
        "line_excess s' = line_excess s2" "b \<longrightarrow> offset s' = length (source s2)"
        "\<not> b \<longrightarrow> \<not> whitespaceRe_test (charAt s2 (offset s'))"
        "\<not> b \<longrightarrow> offset s' \<noteq> length (source s2)"
        "offset s' \<le> length (source s2)"
        using False lt s2(1,2) by simp_all
      have "s2\<lparr>offset := offset s', line := line s'\<rparr> = s\<lparr>offset := offset s', line := line s'\<rparr>"
        by (subst s2(3)) simp
      with ih(1) have "s' = s\<lparr>offset := offset s', line := line s'\<rparr>" by simp
      moreover have "charAt s2 (offset s') = charAt s (offset s')"
        using s2(1) by (simp add: charAt_def)
      ultimately show ?thesis using ih s2 ex by simp

    qed
  qed
qed


lemma newlines_charAt: "newlines (charAt s p) = (if charAt s p = [LF] then 1 else 0)"
  by (simp add: charAt_def String_charAt_def)

lemma line_comment_end_spec:
  "line_comment_end s = (s', b) \<Longrightarrow>
     s' = s\<lparr>offset := offset s'\<rparr> \<and> offset s < offset s' \<and>
     newlines (take (offset s') (source s)) = newlines (take (Suc (offset s)) (source s)) \<and>
     (b \<longrightarrow> length (source s) \<le> offset s') \<and>
     (b \<longrightarrow> offset s < length (source s) \<longrightarrow> offset s' = length (source s)) \<and>
     (\<not> b \<longrightarrow> charAt s (offset s') = [LF])"
proof (induction "length (source s) - offset s" arbitrary: s rule: less_induct)
  case less
  define s1 where "s1 = s\<lparr>offset := offset s + 1\<rparr>"
  have s1: "source s1 = source s" "offset s1 = Suc (offset s)" "\<And>p. charAt s1 p = charAt s p"
    by (simp_all add: s1_def)
  have unfold: "line_comment_end s =
      (if charAt s (offset s1) \<noteq> [LF] then
         (if length (source s) \<le> offset s1 then (s1, True) else line_comment_end s1)
       else (s1, False))"
    by (simp add: line_comment_end.simps [of s] s1_def Let_def)
  show ?case
  proof (cases "charAt s (offset s1) \<noteq> [LF] \<and> \<not> length (source s) \<le> offset s1")
    case False
    with less.prems have "s' = s1" "b \<longleftrightarrow> charAt s (offset s1) \<noteq> [LF]"
      by (auto simp: unfold split: if_splits)
    with False show ?thesis by (auto simp: s1_def)
  next
    case True
    with less.prems have rec: "line_comment_end s1 = (s', b)" by (simp add: unfold)
    have "length (source s1) - offset s1 < length (source s) - offset s"
      using True s1 by (simp add: not_le) arith
    from less.hyps [OF this rec] s1
    have ih: "s' = s1\<lparr>offset := offset s'\<rparr>" "offset s1 < offset s'"
      "newlines (take (offset s') (source s)) = newlines (take (Suc (offset s1)) (source s))"
      "b \<longrightarrow> length (source s) \<le> offset s'"
      "b \<longrightarrow> offset s' = length (source s)"
      "\<not> b \<longrightarrow> charAt s (offset s') = [LF]"
      using True by simp_all
    have "s' = s\<lparr>offset := offset s'\<rparr>"
      by (subst ih(1)) (simp add: s1_def)
    moreover have "newlines (take (Suc (offset s1)) (source s)) =
        newlines (take (Suc (offset s)) (source s))"
      using True newlines_charAt [of s "offset s1"] s1
      by (simp add: newlines_take_Suc charAt_def)
    ultimately show ?thesis using ih s1 by simp
  qed
qed

lemma block_comment_end_spec:
  "block_comment_end cur s = Inr s' \<Longrightarrow>
     s' = s\<lparr>offset := offset s', line := line s'\<rparr> \<and> offset s < offset s' \<and>
     offset s' < length (source s) \<and> charAt s (offset s') = [slash] \<and>
     (cur = charAt s (offset s) \<longrightarrow> line_excess s' = line_excess s)"
proof (induction "length (source s) - offset s" arbitrary: cur s rule: less_induct)
  case less
  define s2 where
    "s2 = (if cur = [LF] then s\<lparr>line := line s + 1\<rparr> else s)\<lparr>offset := offset s + 1\<rparr>"
  have s2: "source s2 = source s" "offset s2 = Suc (offset s)"
    "\<And>p. charAt s2 p = charAt s p"
    "s2 = s\<lparr>offset := offset s2, line := line s2\<rparr>"
    "line s2 = line s + (if cur = [LF] then 1 else 0)"
    by (auto simp: s2_def charAt_def)
  have ex: "cur = charAt s (offset s) \<Longrightarrow> line_excess s2 = line_excess s"
    using s2 newlines_charAt [of s "offset s"]
    by (simp add: line_excess_def newlines_take_Suc charAt_def)
  have unfold: "block_comment_end cur s =
      (if length (source s) \<le> offset s2 then Inl (illegal (js ''comment'') s2)
       else if cur \<noteq> [star] \<or> charAt s (offset s2) \<noteq> [slash]
            then block_comment_end (charAt s (offset s2)) s2
            else Inr s2)"
    using s2(1,3) by (simp add: block_comment_end.simps [of cur s] s2_def Let_def)
  from less.prems have len: "offset s2 < length (source s)"
    by (auto simp: unfold split: if_splits)
  show ?case
  proof (cases "cur \<noteq> [star] \<or> charAt s (offset s2) \<noteq> [slash]")
    case False
    with less.prems len have "s' = s2" by (simp add: unfold)
    with False s2 ex len show ?thesis by simp
  next
    case True
    with less.prems len have rec: "block_comment_end (charAt s (offset s2)) s2 = Inr s'"
      by (simp add: unfold)
    have "length (source s2) - offset s2 < length (source s) - offset s"
      using len s2 by simp
    from less.hyps [OF this rec] s2(1,3)
    have ih: "s' = s2\<lparr>offset := offset s', line := line s'\<rparr>" "offset s2 < offset s'"
      "offset s' < length (source s)" "charAt s (offset s') = [slash]"
      "line_excess s' = line_excess s2"
      by simp_all
    have "s2\<lparr>offset := offset s', line := line s'\<rparr> = s\<lparr>offset := offset s', line := line s'\<rparr>"
      by (subst s2(4)) simp
    with ih(1) have "s' = s\<lparr>offset := offset s', line := line s'\<rparr>" by simp
    then show ?thesis using ih s2 ex by simp
  qed
qed


lemma scanned_from_refl [simp]: "scanned_from s s"
  by (simp add: scanned_from_def)

lemma scanned_from_trans: "scanned_from s s1 \<Longrightarrow> scanned_from s1 s2 \<Longrightarrow> scanned_from s s2"
  by (simp add: scanned_from_def)

lemma scanned_from_skip_whitespace: "skip_whitespace s = (s', b) \<Longrightarrow> scanned_from s s'"
proof -
  assume a: "skip_whitespace s = (s', b)"
  from skip_whitespace_spec [OF a]
  have eq: "s' = s\<lparr>offset := offset s', line := line s'\<rparr>" and rest: "offset s \<le> offset s'"
    "line_excess s' = line_excess s" by simp_all
  have "source s' = source s \<and> stack s' = stack s \<and> stringDelim s' = stringDelim s"
    by (subst eq, simp)+
  with rest show ?thesis by (simp add: scanned_from_def)
qed

lemma line_excess_step:
  "source s' = source s \<Longrightarrow> offset s' = Suc (offset s) \<Longrightarrow>
   line s' = line s + newlines (charAt s (offset s)) \<Longrightarrow> line_excess s' = line_excess s"
  by (simp add: line_excess_def newlines_take_Suc charAt_def)

lemma setComment_frame [simp]:
  "line (setComment start end s) = line s" "stack (setComment start end s) = stack s"
  "stringDelim (setComment start end s) = stringDelim s"
  by (simp_all add: setComment_def Let_def)

lemma line_excess_setComment [simp]: "line_excess (setComment start end s) = line_excess s"
  by (simp add: line_excess_def)

lemma scan_spec:
  "(scan s = Return r s' \<longrightarrow>
      scanned_from s s' \<and>
      (r = None \<and> offset s' = length (source s) \<or>
       r = Some [slash] \<and> offset s' \<le> length (source s))) \<and>
   (scan s = Token s' \<longrightarrow>
      scanned_from s s' \<and> \<not> whitespaceRe_test (charAt s (offset s')) \<and>
      charAt s (offset s') \<noteq> [slash] \<and> offset s' \<noteq> length (source s) \<and>
      (offset s \<le> length (source s) \<longrightarrow> offset s' \<le> length (source s)))"
proof (induction "length (source s) - offset s" arbitrary: s rule: less_induct)
  case less
  note unfold = scan.simps [of s]
  show ?case
  proof (cases "offset s = length (source s)")
    case True
    then show ?thesis by (auto simp: unfold)
  next
    case ne: False
    obtain s1 b where ws: "skip_whitespace s = (s1, b)" by (cases "skip_whitespace s")
    have w: "offset s \<le> offset s1" "b \<longrightarrow> offset s1 = length (source s)"
      "\<not> b \<longrightarrow> \<not> whitespaceRe_test (charAt s (offset s1))"
      "\<not> b \<longrightarrow> offset s \<noteq> length (source s) \<longrightarrow> offset s1 \<noteq> length (source s)"
      "offset s \<le> length (source s) \<longrightarrow> offset s1 \<le> length (source s)"
      using skip_whitespace_spec [OF ws] by simp_all
    have f1: "scanned_from s s1" by (rule scanned_from_skip_whitespace [OF ws])
    then have src1: "source s1 = source s" "\<And>p. charAt s1 p = charAt s p"
      by (simp_all add: scanned_from_def charAt_def)
    show ?thesis
    proof (cases b)
      case True
      with ne ws have "scan s = Return None s1" by (simp add: unfold)
      with f1 w True show ?thesis by auto
    next
      case nb: False
      show ?thesis
      proof (cases "charAt s1 (offset s1) = [slash]")
        case False
        with ne ws nb have "scan s = Token s1" by (simp add: unfold)
        with f1 w nb ne False src1 show ?thesis by auto
      next
        case sl: True
        define s2 where "s2 = s1\<lparr>offset := offset s1 + 1\<rparr>"
        have lt1: "offset s1 < length (source s)"
          using sl src1 by (simp add: charAt_def String_charAt_def split: if_splits)
        have f2: "scanned_from s1 s2"
          using sl by (simp add: scanned_from_def s2_def line_excess_step)
        have s2: "source s2 = source s" "offset s2 = Suc (offset s1)"
          "\<And>p. charAt s2 p = charAt s p"
          using src1 by (simp_all add: s2_def)
        have f02: "scanned_from s s2" by (rule scanned_from_trans [OF f1 f2])
        have unfold2: "scan s =
           (if offset s2 = length (source s2) then Throw (illegal (js ''comment'') s2)
            else if charAt s2 (offset s2) = [slash] then
              (let start = offset s2 + 1;
                   isComment = (charAt s2 start = [slash])
               in case line_comment_end s2 of
                    (s3, True) \<Rightarrow> Return None s3
                  | (s3, False) \<Rightarrow>
                      (let s4 = s3\<lparr>offset := offset s3 + 1\<rparr>;
                           s5 = (if isComment then setComment start (offset s4 - 1) s4
                                 else s4);
                           s6 = s5\<lparr>line := line s5 + 1\<rparr>
                       in scan s6))
            else if charAt s2 (offset s2) = [star] then
              (let start = offset s2 + 1;
                   isComment = (charAt s2 start = [star])
               in case block_comment_end (charAt s2 (offset s2)) s2 of
                    Inl e \<Rightarrow> Throw e
                  | Inr s3 \<Rightarrow>
                      (let s4 = s3\<lparr>offset := offset s3 + 1\<rparr>;
                           s5 = (if isComment then setComment start (offset s4 - 2) s4
                                 else s4)
                       in scan s5))
            else Return (Some [slash]) s2)"
          using ne ws nb sl by (simp add: unfold s2_def Let_def)
        show ?thesis
        proof (cases "offset s2 = length (source s2)")
          case True
          then show ?thesis by (simp add: unfold2)
        next
          case ne2: False
          then have lt2: "offset s2 < length (source s)" using lt1 s2 by simp
          show ?thesis
          proof (cases "charAt s2 (offset s2) = [slash]")
            case line: True
            obtain s3 b' where lc: "line_comment_end s2 = (s3, b')"
              by (cases "line_comment_end s2")
            have eq3: "s3 = s2\<lparr>offset := offset s3\<rparr>"
              using line_comment_end_spec [OF lc] by simp
            have l: "offset s2 < offset s3"
              "newlines (take (offset s3) (source s2)) = newlines (take (Suc (offset s2)) (source s2))"
              "b' \<longrightarrow> length (source s2) \<le> offset s3"
              "b' \<longrightarrow> offset s2 < length (source s2) \<longrightarrow> offset s3 = length (source s2)"
              "\<not> b' \<longrightarrow> charAt s2 (offset s3) = [LF]"
              using line_comment_end_spec [OF lc] by simp_all
            have fr3: "source s3 = source s" "stack s3 = stack s2"
              "stringDelim s3 = stringDelim s2" "line s3 = line s2"
              using s2(1) by (subst eq3, simp)+
            have nl3: "newlines (take (offset s3) (source s)) =
                newlines (take (offset s2) (source s))"
              using l line s2 newlines_charAt [of s "offset s2"]
              by (simp add: newlines_take_Suc charAt_def)
            have f3: "scanned_from s2 s3"
              using fr3 l nl3 s2 by (simp add: scanned_from_def line_excess_def)
            show ?thesis
            proof (cases b')
              case True
              with lc ne2 line have "scan s = Return None s3" by (simp add: unfold2 Let_def)
              moreover have "offset s3 = length (source s)" using l True lt2 s2 by simp
              ultimately show ?thesis
                using scanned_from_trans [OF f02 f3] by auto
            next
              case False
              define s4 where "s4 = s3\<lparr>offset := offset s3 + 1\<rparr>"
              define s5 where "s5 = (if charAt s2 (offset s2 + 1) = [slash]
                  then setComment (offset s2 + 1) (offset s4 - 1) s4 else s4)"
              define s6 where "s6 = s5\<lparr>line := line s5 + 1\<rparr>"
              have rec: "scan s = scan s6"
                using lc ne2 line False by (simp add: unfold2 Let_def s4_def s5_def s6_def)
              have lf: "charAt s (offset s3) = [LF]" using l False s2 by simp
              then have lt3: "offset s3 < length (source s)"
                by (simp add: charAt_def String_charAt_def split: if_splits)
              have s6: "source s6 = source s" "offset s6 = Suc (offset s3)"
                "stack s6 = stack s3" "stringDelim s6 = stringDelim s3"
                "line s6 = line s3 + 1"
                using fr3 by (simp_all add: s6_def s5_def s4_def)
              have "line_excess s6 = line_excess s3"
                using s6 fr3 lf by (simp add: line_excess_def newlines_take_Suc charAt_def)
              then have f6: "scanned_from s3 s6"
                using s6 fr3 by (simp add: scanned_from_def)
              have f06: "scanned_from s s6"
                using scanned_from_trans [OF scanned_from_trans [OF f02 f3] f6] .
              have "length (source s6) - offset s6 < length (source s) - offset s"
                using s6 lt3 l s2 w by simp
              from less.hyps [OF this] rec f06 s6 lt3 show ?thesis
                by (auto simp: scanned_from_def charAt_def)
            qed
          next
            case nline: False
            show ?thesis
            proof (cases "charAt s2 (offset s2) = [star]")
              case False
              with ne2 nline have "scan s = Return (Some [slash]) s2" by (simp add: unfold2)
              with f02 lt2 show ?thesis by auto
            next
              case block: True
              show ?thesis
              proof (cases "block_comment_end (charAt s2 (offset s2)) s2")
                case (Inl e)
                with ne2 nline block have "scan s = Throw e" by (simp add: unfold2 Let_def)
                then show ?thesis by simp
              next
                case (Inr s3)
                have eq3: "s3 = s2\<lparr>offset := offset s3, line := line s3\<rparr>"
                  using block_comment_end_spec [OF Inr] by simp
                have bc: "offset s2 < offset s3" "offset s3 < length (source s2)"
                  "charAt s2 (offset s3) = [slash]" "line_excess s3 = line_excess s2"
                  using block_comment_end_spec [OF Inr] by simp_all
                have fr3: "source s3 = source s" "stack s3 = stack s2"
                  "stringDelim s3 = stringDelim s2"
                  using s2(1) by (subst eq3, simp)+
                have f3: "scanned_from s2 s3"
                  using fr3 bc s2 by (simp add: scanned_from_def)
                define s4 where "s4 = s3\<lparr>offset := offset s3 + 1\<rparr>"
                define s5 where "s5 = (if charAt s2 (offset s2 + 1) = [star]
                    then setComment (offset s2 + 1) (offset s4 - 2) s4 else s4)"
                have rec: "scan s = scan s5"
                  using Inr ne2 nline block by (simp add: unfold2 Let_def s4_def s5_def)
                have sl3: "charAt s (offset s3) = [slash]" using bc s2 by simp
                have s5: "source s5 = source s" "offset s5 = Suc (offset s3)"
                  "stack s5 = stack s3" "stringDelim s5 = stringDelim s3"
                  "line s5 = line s3"
                  using fr3 by (simp_all add: s5_def s4_def)
                have "line_excess s5 = line_excess s3"
                  using s5 fr3 sl3 by (simp add: line_excess_def newlines_take_Suc charAt_def)
                then have f5: "scanned_from s3 s5"
                  using s5 fr3 by (simp add: scanned_from_def)
                have f05: "scanned_from s s5"
                  using scanned_from_trans [OF scanned_from_trans [OF f02 f3] f5] .
                have "length (source s5) - offset s5 < length (source s) - offset s"
                  using s5 bc s2 w by simp
                from less.hyps [OF this] rec f05 s5 bc(2) s2(1) show ?thesis
                  by (auto simp: scanned_from_def charAt_def)
              qed
            qed
          qed
        qed
      qed
    qed
  qed
qed

section \<open>Tokens\<close>

lemma delim_newline: "\<not> delimRe_test (charAt s p) \<Longrightarrow> newlines (charAt s p) = 0"
  by (auto simp: charAt_def String_charAt_def delimRe_test_def is_delim_def is_whitespace_def)

lemma whitespace_newline: "\<not> whitespaceRe_test (charAt s p) \<Longrightarrow> newlines (charAt s p) = 0"
  by (auto simp: charAt_def String_charAt_def whitespaceRe_test_def is_whitespace_def)

lemma token_end_spec:
  "e \<le> token_end s e \<and>
   newlines (take (token_end s e) (source s)) = newlines (take e (source s))"
proof (induction s e rule: token_end.induct)
  case (1 s e)
  show ?case
  proof (cases "e < length (source s) \<and> \<not> delimRe_test (charAt s e)")
    case False
    then show ?thesis by (auto simp: token_end.simps [of s e])
  next
    case True
    then have eq: "token_end s e = token_end s (e + 1)"
      by (simp add: token_end.simps [of s e])
    have "newlines (take (Suc e) (source s)) = newlines (take e (source s))"
      using True delim_newline [of s e] by (simp add: newlines_take_Suc charAt_def)
    with "1.IH" True eq show ?thesis by simp
  qed
qed

lemma next_scan_spec:
  assumes "next_scan s = Inr (t, s')"
  shows "source s' = source s \<and> stack s' = stack s \<and> offset s \<le> offset s' \<and>
    line_excess s' = line_excess s \<and>
    (t = None \<longrightarrow> offset s' = length (source s) \<and> stringDelim s' = stringDelim s)"
proof (cases "scan s")
  case (Return r s1)
  with assms have "t = r" "s' = s1" by (simp_all add: next_scan_def)
  with scan_spec [of s r s1] Return show ?thesis
    by (auto simp: scanned_from_def)
next
  case (Throw e)
  with assms show ?thesis by (simp add: next_scan_def)
next
  case (Token s1)
  with scan_spec [of s t s1]
  have f: "source s1 = source s" "stack s1 = stack s" "offset s \<le> offset s1"
    "line_excess s1 = line_excess s" "\<not> whitespaceRe_test (charAt s1 (offset s1))"
    by (simp_all add: scanned_from_def charAt_def)
  define e where "e = (if \<not> delimRe_test (charAt s1 (offset s1))
    then token_end s1 (offset s1 + 1) else offset s1 + 1)"
  have e: "Suc (offset s1) \<le> e"
    "newlines (take e (source s1)) = newlines (take (Suc (offset s1)) (source s1))"
    using token_end_spec [of "offset s1 + 1" s1] by (simp_all add: e_def)
  have "newlines (take (Suc (offset s1)) (source s1)) = newlines (take (offset s1) (source s1))"
    using whitespace_newline [OF f(5)] by (simp add: newlines_take_Suc charAt_def)
  with e have nl: "newlines (take e (source s1)) = newlines (take (offset s1) (source s1))"
    by simp
  from assms Token have t: "t \<noteq> None"
    and s': "source s' = source s1" "stack s' = stack s1" "offset s' = e" "line s' = line s1"
    by (auto simp: next_scan_def Let_def e_def split: if_splits)
  have "line_excess s' = line_excess s1"
    using s' nl by (simp add: line_excess_def)
  with f s' e t show ?thesis by auto
qed

lemma next_tok_None:
  assumes "next_tok s = Inr (None, s')"
  shows "stack s = [] \<and> next_scan s = Inr (None, s')"
  using assms
  by (auto simp: next_tok_def readString_def Let_def split: list.splits option.splits if_splits)

lemma end_of_input_fixpoint:
  assumes "next_tok s = Inr (None, s')"
  shows "next_tok s' = Inr (None, s')"
proof -
  from next_tok_None [OF assms] have st: "stack s = []" and sc: "next_scan s = Inr (None, s')"
    by simp_all
  from next_scan_spec [OF sc]
  have f: "source s' = source s" "stack s' = stack s" "offset s' = length (source s)"
    "stringDelim s' = stringDelim s"
    by simp_all
  have "scan s' = Return None s'" using f by (simp add: scan.simps [of s'])
  then have "next_scan s' = Inr (None, s')" by (simp add: next_scan_def)
  moreover have "stringDelim s = None \<or> stringDelim s = Some []"
    using assms st by (auto simp: next_tok_def readString_def Let_def split: option.splits if_splits)
  ultimately show ?thesis using f st by (auto simp: next_tok_def)
qed

text \<open>
  The cursor stays within the source. So a comment loop, which \<^verbatim>\<open>next\<close> enters behind a
  character that it has just read, is never run from beyond the end, where the model's
  \<open>\<le>\<close> and the source's \<^verbatim>\<open>===\<close> would part.
\<close>

lemma token_end_bound: "e \<le> length (source s) \<Longrightarrow> token_end s e \<le> length (source s)"
proof (induction s e rule: token_end.induct)
  case (1 s e)
  show ?case
  proof (cases "e < length (source s) \<and> \<not> delimRe_test (charAt s e)")
    case False
    with "1.prems" show ?thesis by (auto simp: token_end.simps [of s e])
  next
    case True
    then have "token_end s e = token_end s (e + 1)"
      by (simp add: token_end.simps [of s e])
    with "1.IH" True show ?thesis by simp
  qed
qed

lemma next_scan_bound:
  assumes "next_scan s = Inr (t, s')" and "offset s \<le> length (source s)"
  shows "offset s' \<le> length (source s')"
proof (cases "scan s")
  case (Return r s1)
  with assms have "t = r" "s' = s1" by (simp_all add: next_scan_def)
  with scan_spec [of s r s1] Return show ?thesis
    by (auto simp: scanned_from_def)
next
  case (Throw e)
  with assms show ?thesis by (simp add: next_scan_def)
next
  case (Token s1)
  with scan_spec [of s t s1] assms(2)
  have f: "source s1 = source s" "offset s1 \<noteq> length (source s)" "offset s1 \<le> length (source s)"
    by (simp_all add: scanned_from_def)
  then have "Suc (offset s1) \<le> length (source s1)" by simp
  with token_end_bound [of "Suc (offset s1)" s1]
  have "token_end s1 (Suc (offset s1)) \<le> length (source s1)" by simp
  with assms(1) Token \<open>Suc (offset s1) \<le> length (source s1)\<close> show ?thesis
    by (auto simp: next_scan_def Let_def split: if_splits)
qed

lemma cursor_within_source:
  assumes "next_tok s = Inr (t, s')" and "offset s \<le> length (source s)"
  shows "offset s' \<le> length (source s')"
proof (cases "stack s")
  case (Cons t0 ts)
  with assms show ?thesis by (auto simp: next_tok_def)
next
  case Nil
  show ?thesis
  proof (cases "truthy (stringDelim s)")
    case True
    then obtain d where d: "stringDelim s = Some d" "d \<noteq> []"
      by (auto simp: truthy_def split: option.splits)
    with assms Nil have "readString d s = Inr (t, s')" by (simp add: next_tok_def)
    then show ?thesis
      by (auto simp: readString_def stringRe_exec_def Let_def push_def split: option.splits)
  next
    case False
    with assms Nil have "next_scan s = Inr (t, s')"
      by (auto simp: next_tok_def truthy_def split: option.splits)
    from next_scan_bound [OF this assms(2)] show ?thesis .
  qed
qed

section \<open>Lookahead\<close>

lemma peek_nonempty: "stack s \<noteq> [] \<Longrightarrow> peek s = Inr (stack0 s, s)"
  by (simp add: peek_def)

lemma stack0_push: "stack0 (push token s) = Some (case stack s of [] \<Rightarrow> token | t # ts \<Rightarrow> t)"
  by (cases "stack s") (simp_all add: stack0_def push_def)

lemma peek_cases:
  assumes "peek s = Inr (actual, s1)"
  shows "(stack s \<noteq> [] \<and> actual = stack0 s \<and> s1 = s) \<or>
         (stack s = [] \<and> actual = None \<and> next_tok s = Inr (None, s1)) \<or>
         (stack s = [] \<and> (\<exists>token s0. next_tok s = Inr (Some token, s0) \<and>
            actual = stack0 (push token s0) \<and> s1 = push token s0))"
proof (cases "stack s = []")
  case False
  with assms show ?thesis by (auto simp: peek_def)
next
  case True
  show ?thesis
  proof (cases "next_tok s")
    case (Inl e)
    with assms True show ?thesis by (simp add: peek_def)
  next
    case (Inr p)
    obtain r s0 where p: "p = (r, s0)" by (cases p)
    show ?thesis
    proof (cases r)
      case None
      with assms True Inr p show ?thesis by (simp add: peek_def)
    next
      case (Some token)
      with assms True Inr p have "actual = stack0 (push token s0)" "s1 = push token s0"
        by (auto simp: peek_def Let_def)
      with True Inr p Some show ?thesis by blast
    qed
  qed
qed

lemma peek_Some:
  assumes "peek s = Inr (Some t, s1)"
  shows "\<exists>ts. stack s1 = t # ts"
  using peek_cases [OF assms]
proof (elim disjE conjE exE)
  assume "stack s \<noteq> []" "Some t = stack0 s" "s1 = s"
  then show ?thesis by (cases "stack s") (simp_all add: stack0_def)
next
  assume "Some t = None"
  then show ?thesis by simp
next
  fix token s0
  assume "Some t = stack0 (push token s0)" "s1 = push token s0"
  then show ?thesis by (cases "stack s0") (simp_all add: stack0_def push_def)
qed

lemma peek_None:
  assumes "peek s = Inr (None, s1)"
  shows "stack s = [] \<and> next_tok s = Inr (None, s1)"
  using peek_cases [OF assms]
proof (elim disjE conjE exE)
  assume "stack s \<noteq> []" "None = stack0 s"
  then show ?thesis by (cases "stack s") (simp_all add: stack0_def)
next
  assume "stack s = []" "next_tok s = Inr (None, s1)"
  then show ?thesis by simp
next
  fix token s0
  assume "None = stack0 (push token s0)"
  then show ?thesis by (simp add: stack0_push)
qed

lemma peek_again:
  assumes "peek s = Inr (actual, s1)"
  shows "peek s1 = Inr (actual, s1)"
proof (cases actual)
  case None
  with peek_None [of s s1] assms have "stack s = []" "next_tok s = Inr (None, s1)" by simp_all
  moreover from next_tok_None [OF this(2)] have "next_scan s = Inr (None, s1)" by simp
  from next_scan_spec [OF this] have "stack s1 = stack s" by simp
  ultimately show ?thesis
    using end_of_input_fixpoint [of s s1] None by (simp add: peek_def)
next
  case (Some t)
  with peek_Some [of s t s1] assms obtain ts where "stack s1 = t # ts" by auto
  with Some show ?thesis by (simp add: peek_def stack0_def)
qed

lemma peek_peeked:
  assumes "stack s \<noteq> [] \<or> \<not> truthy (stringDelim s)" and "next_tok s = Inr (actual, s')"
  shows "peek s = Inr (actual, peeked s actual s')"
    and "next_tok (peeked s actual s') = Inr (actual, s')"
    and "line (peeked s actual s') = line s' \<and> offset (peeked s actual s') = offset s'"
proof -
  let ?p = "peeked s actual s'"
  have "peek s = Inr (actual, ?p) \<and> next_tok ?p = Inr (actual, s') \<and>
      line ?p = line s' \<and> offset ?p = offset s'"
  proof (cases "stack s")
    case (Cons t0 ts)
    with assms(2) have "actual = Some t0" "s' = s\<lparr>stack := ts\<rparr>"
      by (auto simp: next_tok_def)
    with Cons assms(2) show ?thesis
      by (simp add: peeked_def peek_def stack0_def)
  next
    case Nil
    with assms have sc: "next_scan s = Inr (actual, s')"
      by (auto simp: next_tok_def truthy_def split: option.splits)
    from next_scan_spec [OF sc] Nil have st: "stack s' = []" by simp
    show ?thesis
    proof (cases actual)
      case None
      with assms(2) Nil have "peek s = Inr (None, s')" by (simp add: peek_def)
      moreover have "next_tok s' = Inr (None, s')"
        using end_of_input_fixpoint [of s s'] assms(2) None by simp
      ultimately show ?thesis using None Nil by (simp add: peeked_def)
    next
      case (Some tok)
      let ?s1 = "push tok s'"
      have s1: "stack ?s1 = [tok]" using st by (simp add: push_def)
      have "peek s = Inr (Some tok, ?s1)"
        using assms(2) Nil Some s1 by (simp add: peek_def Let_def stack0_def)
      moreover have "?s1\<lparr>stack := []\<rparr> = s'"
        using st by (simp add: push_def)
      then have "next_tok ?s1 = Inr (Some tok, s')"
        using s1 by (simp add: next_tok_def)
      moreover have "line ?s1 = line s'" "offset ?s1 = offset s'" by (simp_all add: push_def)
      ultimately show ?thesis using Some Nil by (simp add: peeked_def)
    qed
  qed
  then show "peek s = Inr (actual, ?p)" "next_tok ?p = Inr (actual, s')"
    "line ?p = line s' \<and> offset ?p = offset s'" by simp_all
qed

section \<open>The escape decoder against its reference\<close>

lemma unescapeMap_char:
  "unescapeMap [d] =
     (if d = 0x30 then Some [NUL] else if d = 0x72 then Some [CR] else if d = 0x6E then Some [LF]
      else if d = 0x74 then Some [TAB] else None)"
  by (simp add: unescapeMap_def js_def)

lemma unescape_Nil: "unescape [] = []"
  by (simp add: unescape_def)

lemma unescape_plain: "c \<noteq> bslash \<Longrightarrow> unescape (c # cs) = c # unescape cs"
  by (simp add: unescape_def)

lemma unescape_lone: "unescape [bslash] = []"
  by (simp add: unescape_def)

lemma unescape_terminator:
  "is_line_terminator d \<Longrightarrow> unescape (bslash # d # cs) = unescape (d # cs)"
  by (simp add: unescape_def)

lemma unescape_pair:
  "\<not> is_line_terminator d \<Longrightarrow> unescape (bslash # d # cs) = escape_value d @ unescape cs"
  by (simp add: unescape_def unescapeMap_char escape_value_def)

text \<open>
  C5, as stated: \<^verbatim>\<open>unescape\<close> equals the reference decoder of the specification on every
  string. It does not: the reference keeps a lone backslash at the end of the body, the
  source replaces it by the empty string (\<^verbatim>\<open>case "": return $1\<close> returns the empty
  group).
\<close>

theorem unescape_spec_counterexample: "unescape [bslash] \<noteq> unescape_spec [bslash]"
  by (simp add: unescape_lone)

text \<open>
  C5, amended: \<^verbatim>\<open>unescape\<close> equals the reference decoder in which a lone backslash at the
  end is dropped and a backslash in front of a line terminator (LF, CR, U+2028, U+2029) is
  dropped alone; the table, the doubled backslash, the dropped unknown escapes and the
  characters that pass through are as the claim has them.
\<close>

theorem unescape_refines_amended: "unescape str = unescape_amended str"
proof (induction str rule: unescape_amended.induct)
  case 1
  show ?case by (simp add: unescape_Nil)
next
  case (2 c)
  show ?case by (cases "c = bslash") (simp_all add: unescape_lone unescape_plain unescape_Nil)
next
  case (3 c d cs)
  show ?case
  proof (cases "c = bslash")
    case False
    with 3 show ?thesis by (simp add: unescape_plain)
  next
    case True
    with 3 show ?thesis
      by (cases "is_line_terminator d") (simp_all add: unescape_terminator unescape_pair)
  qed
qed

theorem unescape_refines_amended_witness:
  "unescape [0x61, bslash, 0x6E, bslash, 0x71, bslash, bslash, bslash, LF, bslash] =
     [0x61, LF, bslash, LF]"
  using unescape_refines_amended [of "[0x61, bslash, 0x6E, bslash, 0x71, bslash, bslash, bslash, LF, bslash]"]
  by (simp add: escape_value_def is_line_terminator_def)

section \<open>Quoted literals\<close>

lemma literal_body_append:
  "literal_body q cs = Some (body, rest) \<Longrightarrow> cs = body @ q # rest"
proof (induction q cs arbitrary: body rule: literal_body.induct)
  case (1 q)
  then show ?case by simp
next
  case (2 q c cs)
  show ?case
  proof (cases "c = q")
    case True
    with "2.prems" show ?thesis by simp
  next
    case nq: False
    show ?thesis
    proof (cases "c = bslash")
      case False
      with nq "2.prems" obtain b where "literal_body q cs = Some (b, rest)" "body = c # b"
        by auto
      with "2.IH"(2) [OF nq False] show ?thesis by simp
    next
      case True
      with nq "2.prems" obtain d ds b where "cs = d # ds"
        "literal_body q ds = Some (b, rest)" "body = c # d # b"
        by (auto split: list.splits)
      with "2.IH"(1) [OF nq True] show ?thesis by simp
    qed
  qed
qed

lemma literal_body_stringRe:
  "literal_body q cs = Some (body, rest) \<Longrightarrow> \<not> escapes_line_terminator body \<Longrightarrow>
     stringRe_body q cs = Some (body, rest)"
proof (induction q cs arbitrary: body rule: literal_body.induct)
  case (1 q)
  then show ?case by simp
next
  case (2 q c cs)
  show ?case
  proof (cases "c = q")
    case True
    with "2.prems" show ?thesis by simp
  next
    case nq: False
    show ?thesis
    proof (cases "c = bslash")
      case False
      with nq "2.prems" obtain b where b: "literal_body q cs = Some (b, rest)" "body = c # b"
        by auto
      with "2.prems" False have "\<not> escapes_line_terminator b" by simp
      with "2.IH"(2) [OF nq False b(1)] nq False b show ?thesis by simp
    next
      case True
      with nq "2.prems" obtain d ds b where b: "cs = d # ds"
        "literal_body q ds = Some (b, rest)" "body = c # d # b"
        by (auto split: list.splits)
      with "2.prems" True have "\<not> is_line_terminator d" "\<not> escapes_line_terminator b"
        by simp_all
      with "2.IH"(1) [OF nq True b(1,2)] nq True b show ?thesis by simp
    qed
  qed
qed

lemma quote_delim: "q = dquote \<or> q = squote \<Longrightarrow> is_delim q \<and> \<not> is_whitespace q \<and> q \<noteq> slash"
  by (auto simp: is_delim_def is_whitespace_def)

lemma drop_Cons_charAt:
  "drop (offset s) (source s) = c # cs \<Longrightarrow>
     offset s < length (source s) \<and> charAt s (offset s) = [c]"
proof -
  assume a: "drop (offset s) (source s) = c # cs"
  then have "offset s < length (source s)"
    by (metis drop_all list.distinct(1) not_le)
  moreover from a have "source s ! offset s = c" by (rule nth_via_drop)
  ultimately show ?thesis by (simp add: charAt_def String_charAt_def)
qed

text \<open>
  C1, as stated: every quoted literal closed by an unescaped quote of its kind comes out of
  \<^verbatim>\<open>next\<close> as the quote, the decoded body and the quote, and the source \<^verbatim>\<open>"a\"b"\<close> gives
  the body \<^verbatim>\<open>a"b\<close>. On that source the second token is \<^verbatim>\<open>ab\<close>: the quote is not in the
  table of the decoder, which drops the escape. And on the literal whose body is a backslash
  and a newline, closed in the specification's reading, the pattern of \<^verbatim>\<open>readString\<close> finds
  no match (\<^verbatim>\<open>\\.\<close> does not take a line terminator) and the second call raises.
\<close>

theorem quoted_literal_counterexample:
  "next_tok (tokenize [dquote, 0x61, bslash, dquote, 0x62, dquote]) =
     Inr (Some [dquote],
          (tokenize [dquote, 0x61, bslash, dquote, 0x62, dquote])
            \<lparr>offset := 1, stringDelim := Some [dquote]\<rparr>) \<and>
   next_tok ((tokenize [dquote, 0x61, bslash, dquote, 0x62, dquote])
            \<lparr>offset := 1, stringDelim := Some [dquote]\<rparr>) =
     Inr (Some [0x61, 0x62],
          (tokenize [dquote, 0x61, bslash, dquote, 0x62, dquote])
            \<lparr>offset := 6, stack := [[dquote]]\<rparr>) \<and>
   [0x61, 0x62] \<noteq> [0x61, dquote, 0x62 :: jschar] \<and>
   literal_body dquote [bslash, LF, dquote] = Some ([bslash, LF], []) \<and>
   next_tok (tokenize [dquote, bslash, LF, dquote]) =
     Inr (Some [dquote],
          (tokenize [dquote, bslash, LF, dquote])\<lparr>offset := 1, stringDelim := Some [dquote]\<rparr>) \<and>
   next_tok ((tokenize [dquote, bslash, LF, dquote])\<lparr>offset := 1, stringDelim := Some [dquote]\<rparr>) =
     Inl (Illegal (js ''string'') 1)"
  by code_simp

text \<open>
  C1, amended: let \<^verbatim>\<open>next\<close> be called with no token pushed back and no delimiter
  pending, and let its scanning loop stop at a quote character that opens a literal closed
  by an unescaped quote of the same kind, no backslash of the body escaping a line
  terminator (LF, CR, U+2028, U+2029). Then this call and the two calls behind it return the
  quote, the body decoded by \<^verbatim>\<open>unescape\<close> and the quote again, and leave the cursor behind
  the closing quote with nothing pushed back and nothing pending; an escaped quote in the
  body does not end it. The witness reads the literal \<^verbatim>\<open>"a\"b"\<close> behind \<^verbatim>\<open>x =\<close>: the
  three tokens are the quote, \<^verbatim>\<open>ab\<close> and the quote.
\<close>

theorem quoted_literal_tokens:
  assumes "stack s = []" and "\<not> truthy (stringDelim s)"
    and "scan s = Token s0"
    and "q = dquote \<or> q = squote"
    and "drop (offset s0) (source s0) = q # rest"
    and "literal_body q rest = Some (body, rest')"
    and "\<not> escapes_line_terminator body"
  shows "next_tok s = Inr (Some [q], s0\<lparr>offset := offset s0 + 1, stringDelim := Some [q]\<rparr>) \<and>
     next_tok (s0\<lparr>offset := offset s0 + 1, stringDelim := Some [q]\<rparr>) =
       Inr (Some (unescape body),
            s0\<lparr>offset := offset s0 + length body + 2, stack := [[q]], stringDelim := None\<rparr>) \<and>
     next_tok (s0\<lparr>offset := offset s0 + length body + 2, stack := [[q]], stringDelim := None\<rparr>) =
       Inr (Some [q], s0\<lparr>offset := offset s0 + length body + 2, stack := [], stringDelim := None\<rparr>)"
proof -
  note qd = quote_delim [OF assms(4)]
  from scan_spec [of s None s0] assms(1,3)
  have st: "stack s0 = []" by (simp add: scanned_from_def)
  from drop_Cons_charAt [OF assms(5)]
  have lt: "offset s0 < length (source s0)" and ch: "charAt s0 (offset s0) = [q]" by simp_all
  have sub: "substring (source s0) (offset s0) (offset s0 + 1) = [q]"
    using assms(5) by (simp add: substring_def)
  have "next_scan s = Inr (Some [q], s0\<lparr>offset := offset s0 + 1, stringDelim := Some [q]\<rparr>)"
    using assms(3,4) ch qd sub by (auto simp: next_scan_def delimRe_test_def Let_def)
  then have 1: "next_tok s = Inr (Some [q], s0\<lparr>offset := offset s0 + 1, stringDelim := Some [q]\<rparr>)"
    using assms(1,2) by (auto simp: next_tok_def truthy_def split: option.splits)
  have body: "stringRe_body q rest = Some (body, rest')"
    by (rule literal_body_stringRe [OF assms(6,7)])
  have rest: "rest = body @ q # rest'" by (rule literal_body_append [OF assms(6)])
  have "source s0 = take (offset s0) (source s0) @ q # body @ q # rest'"
    using assms(5) rest append_take_drop_id [of "offset s0" "source s0"] by simp
  then have "length (source s0) =
      length (take (offset s0) (source s0)) + length (q # body @ q # rest')"
    by (metis length_append)
  then have len: "length (source s0) - length rest' = offset s0 + length body + 2"
    using lt by simp
  have ex: "stringRe_exec q (source s0) (offset s0) = Some (body, offset s0 + length body + 2)"
    using assms(5) body len by (simp add: stringRe_exec_def)
  have qq: "(if [q] = [squote] then squote else dquote) = q"
    using assms(4) by auto
  have 2: "next_tok (s0\<lparr>offset := offset s0 + 1, stringDelim := Some [q]\<rparr>) =
       Inr (Some (unescape body),
            s0\<lparr>offset := offset s0 + length body + 2, stack := [[q]], stringDelim := None\<rparr>)"
    using st ex qq by (simp add: next_tok_def readString_def push_def)
  have 3: "next_tok (s0\<lparr>offset := offset s0 + length body + 2, stack := [[q]], stringDelim := None\<rparr>) =
       Inr (Some [q], s0\<lparr>offset := offset s0 + length body + 2, stack := [], stringDelim := None\<rparr>)"
    by (simp add: next_tok_def)
  from 1 2 3 show ?thesis by simp
qed

theorem quoted_literal_tokens_witness:
  "next_tok ((tokenize (js ''x = '' @ [dquote, 0x61, bslash, dquote, 0x62, dquote]))\<lparr>offset := 3\<rparr>) =
     Inr (Some [dquote],
          (tokenize (js ''x = '' @ [dquote, 0x61, bslash, dquote, 0x62, dquote]))
            \<lparr>offset := 5, stringDelim := Some [dquote]\<rparr>) \<and>
   next_tok ((tokenize (js ''x = '' @ [dquote, 0x61, bslash, dquote, 0x62, dquote]))
            \<lparr>offset := 5, stringDelim := Some [dquote]\<rparr>) =
     Inr (Some [0x61, 0x62],
          (tokenize (js ''x = '' @ [dquote, 0x61, bslash, dquote, 0x62, dquote]))
            \<lparr>offset := 10, stack := [[dquote]]\<rparr>) \<and>
   next_tok ((tokenize (js ''x = '' @ [dquote, 0x61, bslash, dquote, 0x62, dquote]))
            \<lparr>offset := 10, stack := [[dquote]]\<rparr>) =
     Inr (Some [dquote],
          (tokenize (js ''x = '' @ [dquote, 0x61, bslash, dquote, 0x62, dquote]))\<lparr>offset := 10\<rparr>)"
proof -
  let ?init = "tokenize (js ''x = '' @ [dquote, 0x61, bslash, dquote, 0x62, dquote])"
  let ?s = "?init\<lparr>offset := 3\<rparr>"
  let ?t = "?init\<lparr>offset := 4\<rparr>"
  have 1: "stack ?s = []" "\<not> truthy (stringDelim ?s)"
    by (simp_all add: tokenize_def truthy_def)
  have 2: "scan ?s = Token ?t" by code_simp
  have 3: "drop (offset ?t) (source ?t) = dquote # [0x61, bslash, dquote, 0x62, dquote]"
    by (simp add: tokenize_def js_def)
  have 4: "literal_body dquote [0x61, bslash, dquote, 0x62, dquote] =
      Some ([0x61, bslash, dquote, 0x62], [])"
    by simp
  have 5: "\<not> escapes_line_terminator [0x61, bslash, dquote, 0x62]"
    by (simp add: is_line_terminator_def)
  have 6: "unescape [0x61, bslash, dquote, 0x62] = [0x61, 0x62]"
    by code_simp
  from quoted_literal_tokens [OF 1 2 _ 3 4 5] 6 show ?thesis
    by (simp add: tokenize_def eval_nat_numeral)
qed

section \<open>Comment lookup\<close>

lemma cmnt_result_cases:
  "cmnt_result ret s = (if truthy ret then (ret, clear_comment s) else (ret, s))"
  by (simp add: cmnt_result_def clear_comment_def)

lemma cmnt_clears:
  assumes "cmnt trailingLine s = Inr (Some text, s')"
  shows "commentType s' = None \<and> commentText s' = None \<and> commentLine s' = 0"
proof (cases trailingLine)
  case None
  with assms show ?thesis
    by (auto simp: cmnt_def cmnt_result_def truthy_def split: if_splits)
next
  case (Some l)
  with assms show ?thesis
    by (auto simp: cmnt_def cmnt_result_def truthy_def split: if_splits sum.splits)
qed

text \<open>
  C2, as stated: \<^verbatim>\<open>cmnt()\<close> returns the captured comment text if and only if the recorded
  end line equals \<^verbatim>\<open>line() - 1\<close>. On the source of the line \<^verbatim>\<open>///\<close> and the token
  \<^verbatim>\<open>foo\<close>, behind \<^verbatim>\<open>foo\<close>, the captured text is the empty string and the recorded line 1
  equals \<^verbatim>\<open>line() - 1\<close>, yet \<^verbatim>\<open>cmnt()\<close> returns \<^verbatim>\<open>null\<close>, not the text: the empty
  string is falsy in \<^verbatim>\<open>commentText || null\<close>.
\<close>

theorem cmnt_empty_text_counterexample:
  "commentText ((tokenize (js ''///'' @ LF # js ''foo''))
      \<lparr>offset := 7, line := 2, commentType := Some (js ''/''), commentText := Some [],
       commentLine := 1\<rparr>) = Some [] \<and>
   next_tok (tokenize (js ''///'' @ LF # js ''foo'')) =
     Inr (Some (js ''foo''), (tokenize (js ''///'' @ LF # js ''foo''))
      \<lparr>offset := 7, line := 2, commentType := Some (js ''/''), commentText := Some [],
       commentLine := 1\<rparr>) \<and>
   commentLine ((tokenize (js ''///'' @ LF # js ''foo''))
      \<lparr>offset := 7, line := 2, commentType := Some (js ''/''), commentText := Some [],
       commentLine := 1\<rparr>) =
     line ((tokenize (js ''///'' @ LF # js ''foo''))
      \<lparr>offset := 7, line := 2, commentType := Some (js ''/''), commentText := Some [],
       commentLine := 1\<rparr>) - 1 \<and>
   cmnt None ((tokenize (js ''///'' @ LF # js ''foo''))
      \<lparr>offset := 7, line := 2, commentType := Some (js ''/''), commentText := Some [],
       commentLine := 1\<rparr>) =
     Inr (None, (tokenize (js ''///'' @ LF # js ''foo''))
      \<lparr>offset := 7, line := 2, commentType := Some (js ''/''), commentText := Some [],
       commentLine := 1\<rparr>)"
  by code_simp

text \<open>
  C2, amended: when the captured comment text is not empty, \<^verbatim>\<open>cmnt()\<close> with no argument
  returns it if and only if the recorded end line equals \<^verbatim>\<open>line() - 1\<close>, and returns
  \<^verbatim>\<open>null\<close> and changes nothing otherwise; any result of \<^verbatim>\<open>cmnt\<close> other than \<^verbatim>\<open>null\<close>
  clears the comment slot (type, text, line), and \<^verbatim>\<open>cmnt()\<close> on the state it leaves returns
  \<^verbatim>\<open>null\<close>. The witness is the claim's example: the line \<^verbatim>\<open>/// hello\<close> and the token
  \<^verbatim>\<open>foo\<close>, where \<^verbatim>\<open>line()\<close> is 2 behind \<^verbatim>\<open>foo\<close> and \<^verbatim>\<open>cmnt()\<close> returns \<^verbatim>\<open>hello\<close>.
\<close>

theorem cmnt_leading:
  assumes "commentText s = Some text" and "text \<noteq> []"
  shows "(cmnt None s = Inr (Some text, clear_comment s) \<longleftrightarrow> commentLine s = line s - 1) \<and>
         (cmnt None s = Inr (None, s) \<longleftrightarrow> commentLine s \<noteq> line s - 1) \<and>
         (\<forall>trailingLine r s'. cmnt trailingLine s = Inr (Some r, s') \<longrightarrow>
            commentType s' = None \<and> commentText s' = None \<and> commentLine s' = 0 \<and>
            cmnt None s' = Inr (None, s'))"
proof -
  have t: "truthy (commentText s)" using assms by (simp add: truthy_def)
  have a: "commentLine s = line s - 1 \<Longrightarrow> cmnt None s = Inr (Some text, clear_comment s)"
    using assms t by (simp add: cmnt_def cmnt_result_cases)
  have b: "commentLine s \<noteq> line s - 1 \<Longrightarrow> cmnt None s = Inr (None, s)"
    using assms t by (simp add: cmnt_def cmnt_result_cases truthy_def)
  have c: "commentType s' = None \<and> commentText s' = None \<and> commentLine s' = 0 \<and>
      cmnt None s' = Inr (None, s')" if "cmnt trailingLine s = Inr (Some r, s')"
    for trailingLine r s'
  proof -
    from cmnt_clears [OF that] have cl: "commentType s' = None" "commentText s' = None"
      "commentLine s' = 0" by simp_all
    then have "cmnt None s' = Inr (None, s')"
      by (simp add: cmnt_def cmnt_result_cases truthy_def)
    with cl show ?thesis by simp
  qed
  have d: "(cmnt None s = Inr (Some text, clear_comment s) \<longleftrightarrow> commentLine s = line s - 1) \<and>
      (cmnt None s = Inr (None, s) \<longleftrightarrow> commentLine s \<noteq> line s - 1)"
    by (cases "commentLine s = line s - 1") (simp_all add: a b)
  from c d show ?thesis by blast
qed

theorem cmnt_leading_witness:
  "next_tok (tokenize (js ''/// hello'' @ LF # js ''foo'')) =
     Inr (Some (js ''foo''), (tokenize (js ''/// hello'' @ LF # js ''foo''))
       \<lparr>offset := 13, line := 2, commentType := Some (js ''/''),
        commentText := Some (js ''hello''), commentLine := 1\<rparr>) \<and>
   cmnt None ((tokenize (js ''/// hello'' @ LF # js ''foo''))
       \<lparr>offset := 13, line := 2, commentType := Some (js ''/''),
        commentText := Some (js ''hello''), commentLine := 1\<rparr>) =
     Inr (Some (js ''hello''), (tokenize (js ''/// hello'' @ LF # js ''foo''))
       \<lparr>offset := 13, line := 2\<rparr>) \<and>
   cmnt None ((tokenize (js ''/// hello'' @ LF # js ''foo''))\<lparr>offset := 13, line := 2\<rparr>) =
     Inr (None, (tokenize (js ''/// hello'' @ LF # js ''foo''))\<lparr>offset := 13, line := 2\<rparr>)"
proof -
  let ?init = "tokenize (js ''/// hello'' @ LF # js ''foo'')"
  let ?s = "?init\<lparr>offset := 13, line := 2, commentType := Some (js ''/''),
        commentText := Some (js ''hello''), commentLine := 1\<rparr>"
  have n: "next_tok ?init = Inr (Some (js ''foo''), ?s)" by code_simp
  have 1: "commentText ?s = Some (js ''hello'')" by simp
  have 2: "js ''hello'' \<noteq> []" by (simp add: js_def)
  have 3: "commentLine ?s = line ?s - 1" by simp
  have 4: "clear_comment ?s = ?init\<lparr>offset := 13, line := 2\<rparr>"
    by (simp add: clear_comment_def tokenize_def)
  from cmnt_leading [OF 1 2] 3 4
  have 5: "cmnt None ?s = Inr (Some (js ''hello''), ?init\<lparr>offset := 13, line := 2\<rparr>)"
    by simp
  from cmnt_leading [OF 1 2] 5
  have "cmnt None (?init\<lparr>offset := 13, line := 2\<rparr>) = Inr (None, ?init\<lparr>offset := 13, line := 2\<rparr>)"
    by blast
  with n 5 show ?thesis by simp
qed

section \<open>Peeking behind an opening quote\<close>

text \<open>
  With a token pushed back, or with no delimiter pending, \<^verbatim>\<open>peek\<close> is transparent: it
  reports the token that \<^verbatim>\<open>next\<close> would return, reports it again when repeated, and the
  \<^verbatim>\<open>next\<close> behind it returns that token and leaves the state that \<^verbatim>\<open>next\<close> alone would
  have left.
\<close>

lemma peek_transparent:
  assumes "stack s \<noteq> [] \<or> \<not> truthy (stringDelim s)" and "next_tok s = Inr (t, s')"
  shows "\<exists>s1. peek s = Inr (t, s1) \<and> peek s1 = Inr (t, s1) \<and> next_tok s1 = Inr (t, s')"
proof (cases "stack s")
  case (Cons t0 ts)
  with assms(2) have "t = Some t0" "peek s = Inr (Some t0, s)"
    by (auto simp: next_tok_def peek_def stack0_def)
  with assms(2) show ?thesis by auto
next
  case Nil
  with assms have sc: "next_scan s = Inr (t, s')"
    by (auto simp: next_tok_def truthy_def split: option.splits)
  from next_scan_spec [OF sc] Nil have st: "stack s' = []" by simp
  show ?thesis
  proof (cases t)
    case None
    with assms(2) Nil have "peek s = Inr (None, s')" by (simp add: peek_def)
    moreover have "next_tok s' = Inr (None, s')"
      using end_of_input_fixpoint [of s s'] assms(2) None by simp
    moreover from this st have "peek s' = Inr (None, s')" by (simp add: peek_def)
    ultimately show ?thesis using None by auto
  next
    case (Some tok)
    let ?s1 = "push tok s'"
    have s1: "stack ?s1 = [tok]" using st by (simp add: push_def)
    have "peek s = Inr (Some tok, ?s1)"
      using assms(2) Nil Some s1 by (simp add: peek_def Let_def stack0_def)
    moreover have "peek ?s1 = Inr (Some tok, ?s1)"
      using s1 by (simp add: peek_def stack0_def)
    moreover have "?s1\<lparr>stack := []\<rparr> = s'"
      using st by (simp add: push_def)
    then have "next_tok ?s1 = Inr (Some tok, s')"
      using s1 by (simp add: next_tok_def)
    ultimately show ?thesis using Some by auto
  qed
qed

text \<open>
  C3 on the source \<^verbatim>\<open>"a"\<close>, behind the first token (the opening quote, which leaves the
  delimiter pending): \<^verbatim>\<open>next\<close> would return the body \<^verbatim>\<open>a\<close>, but \<^verbatim>\<open>peek\<close> returns the
  quote. \<^verbatim>\<open>readString\<close> has pushed the closing quote before \<^verbatim>\<open>peek\<close> pushes the body,
  so the stack holds the quote in front of the body and the two tokens come out in the
  wrong order.
\<close>

theorem peek_pending_delimiter_reorders:
  "next_tok (tokenize [dquote, 0x61, dquote]) =
     Inr (Some [dquote], (tokenize [dquote, 0x61, dquote])\<lparr>offset := 1, stringDelim := Some [dquote]\<rparr>) \<and>
   next_tok ((tokenize [dquote, 0x61, dquote])\<lparr>offset := 1, stringDelim := Some [dquote]\<rparr>) =
     Inr (Some [0x61], (tokenize [dquote, 0x61, dquote])\<lparr>offset := 3, stack := [[dquote]]\<rparr>) \<and>
   peek ((tokenize [dquote, 0x61, dquote])\<lparr>offset := 1, stringDelim := Some [dquote]\<rparr>) =
     Inr (Some [dquote], (tokenize [dquote, 0x61, dquote])\<lparr>offset := 3, stack := [[dquote], [0x61]]\<rparr>)"
  by code_simp

section \<open>The line counter\<close>

lemma newlines_slice:
  "a \<le> b \<Longrightarrow> newlines (take b str) = newlines (take a str) + newlines (slice str a b)"
proof -
  assume "a \<le> b"
  then have "take b str = take a str @ take (b - a) (drop a str)"
    using take_add [of a "b - a" str] by simp
  then show ?thesis by (simp add: slice_def)
qed

lemma stringRe_body_append:
  "stringRe_body q cs = Some (body, rest) \<Longrightarrow> cs = body @ q # rest"
proof (induction q cs arbitrary: body rule: stringRe_body.induct)
  case (1 q)
  then show ?case by simp
next
  case (2 q c cs)
  show ?case
  proof (cases "c = q")
    case True
    with "2.prems" show ?thesis by simp
  next
    case nq: False
    show ?thesis
    proof (cases "c = bslash")
      case False
      with nq "2.prems" obtain b where "stringRe_body q cs = Some (b, rest)" "body = c # b"
        by auto
      with "2.IH"(2) [OF nq False] show ?thesis by simp
    next
      case True
      with nq "2.prems" obtain d ds b where "cs = d # ds" "\<not> is_line_terminator d"
        "stringRe_body q ds = Some (b, rest)" "body = c # d # b"
        by (auto split: list.splits if_splits)
      with "2.IH"(1) [OF nq True] show ?thesis by simp
    qed
  qed
qed

lemma stringRe_search_split:
  "stringRe_search q cs = Some (body, rest) \<Longrightarrow> \<exists>pre. cs = pre @ q # body @ q # rest"
proof (induction cs)
  case Nil
  then show ?case by simp
next
  case (Cons c cs)
  show ?case
  proof (cases "c = q \<and> stringRe_body q cs \<noteq> None")
    case True
    with Cons.prems have "stringRe_body q cs = Some (body, rest)" by auto
    from stringRe_body_append [OF this] True have "c # cs = [] @ q # body @ q # rest" by simp
    then show ?thesis by blast
  next
    case False
    with Cons.prems have "stringRe_search q cs = Some (body, rest)"
      by (auto split: if_splits option.splits)
    from Cons.IH [OF this] obtain pre where "cs = pre @ q # body @ q # rest" by blast
    then have "c # cs = (c # pre) @ q # body @ q # rest" by simp
    then show ?thesis by blast
  qed
qed

lemma readString_spec:
  assumes "readString d s = Inr (t, s')"
  shows "source s' = source s \<and> line s' = line s \<and> offset s < offset s' \<and>
    (\<exists>q pre body rest. (q = dquote \<or> q = squote) \<and>
       source s = pre @ q # body @ q # rest \<and> offset s - 1 \<le> length pre \<and>
       offset s' = length pre + length body + 2 \<and> t = Some (unescape body))"
proof -
  define q where "q = (if d = [squote] then squote else dquote)"
  have qq: "q = dquote \<or> q = squote" by (simp add: q_def)
  from assms obtain body lastIndex where
    ex: "stringRe_exec q (source s) (offset s - 1) = Some (body, lastIndex)"
    and t: "t = Some (unescape body)"
    and fr: "source s' = source s" "line s' = line s" "offset s' = lastIndex"
    by (auto simp: readString_def q_def push_def split: option.splits)
  from ex obtain rest where
    se: "stringRe_search q (drop (offset s - 1) (source s)) = Some (body, rest)"
    and li: "lastIndex = length (source s) - length rest"
    by (auto simp: stringRe_exec_def split: option.splits)
  from stringRe_search_split [OF se] obtain p where
    p: "drop (offset s - 1) (source s) = p @ q # body @ q # rest" by blast
  then have le: "offset s - 1 < length (source s)"
    by (metis append_is_Nil_conv drop_all list.distinct(1) not_le)
  define pre where "pre = take (offset s - 1) (source s) @ p"
  have src: "source s = pre @ q # body @ q # rest"
    using p append_take_drop_id [of "offset s - 1" "source s"] by (simp add: pre_def)
  have lp: "offset s - 1 \<le> length pre" using le by (simp add: pre_def)
  have "length (source s) = length pre + length (q # body @ q # rest)"
    using src by (metis length_append)
  then have off: "lastIndex = length pre + length body + 2" using li by simp
  have "offset s < offset s'" using off lp fr by simp
  with fr src lp off t qq show ?thesis by blast
qed

text \<open>
  C4, as stated: \<^verbatim>\<open>line()\<close> is 1 plus the number of newline characters consumed so far,
  those inside quoted string bodies included. On the source of a quote, a newline and a
  quote, two calls of \<^verbatim>\<open>next\<close> take the cursor behind the whole literal, over one newline,
  and \<^verbatim>\<open>line()\<close> is still 1: \<^verbatim>\<open>readString\<close> never touches the counter.
\<close>

theorem line_in_string_counterexample:
  "next_tok (tokenize [dquote, LF, dquote]) =
     Inr (Some [dquote], (tokenize [dquote, LF, dquote])\<lparr>offset := 1, stringDelim := Some [dquote]\<rparr>) \<and>
   next_tok ((tokenize [dquote, LF, dquote])\<lparr>offset := 1, stringDelim := Some [dquote]\<rparr>) =
     Inr (Some [LF], (tokenize [dquote, LF, dquote])\<lparr>offset := 3, stack := [[dquote]]\<rparr>) \<and>
   line ((tokenize [dquote, LF, dquote])\<lparr>offset := 3, stack := [[dquote]]\<rparr>) = 1 \<and>
   newlines (take (offset ((tokenize [dquote, LF, dquote])\<lparr>offset := 3, stack := [[dquote]]\<rparr>))
     (source ((tokenize [dquote, LF, dquote])\<lparr>offset := 3, stack := [[dquote]]\<rparr>))) = 1 \<and>
   line ((tokenize [dquote, LF, dquote])\<lparr>offset := 3, stack := [[dquote]]\<rparr>) \<noteq>
     1 + newlines (take (offset ((tokenize [dquote, LF, dquote])\<lparr>offset := 3, stack := [[dquote]]\<rparr>))
       (source ((tokenize [dquote, LF, dquote])\<lparr>offset := 3, stack := [[dquote]]\<rparr>)))"
  by code_simp

text \<open>
  C4, amended: \<^verbatim>\<open>line()\<close> starts at 1. A call of \<^verbatim>\<open>next\<close> that scans (no token pushed
  back, no delimiter pending) adds to the counter exactly the number of newline characters
  between the cursor before and the cursor behind the call, whether they stand in whitespace
  or inside comments. A call served from the pushed-back tokens moves neither the cursor nor
  the counter. A call that reads a quoted string returns the decoded body of a literal that
  lies at or behind the opening quote, moves the cursor forward to just behind the closing
  quote of that literal, and leaves the counter as it is, so the newline characters inside
  string bodies are passed but not counted.
\<close>

theorem line_counts_scanned_newlines:
  "line (tokenize src) = 1 \<and>
   (next_tok s = Inr (t, s') \<longrightarrow>
      source s' = source s \<and>
      (stack s = [] \<and> \<not> truthy (stringDelim s) \<longrightarrow>
         offset s \<le> offset s' \<and>
         line s' = line s + newlines (slice (source s) (offset s) (offset s'))) \<and>
      (stack s = [] \<and> truthy (stringDelim s) \<longrightarrow>
         line s' = line s \<and> offset s < offset s' \<and>
         (\<exists>q pre body rest. (q = dquote \<or> q = squote) \<and>
            source s = pre @ q # body @ q # rest \<and> offset s - 1 \<le> length pre \<and>
            offset s' = length pre + length body + 2 \<and> t = Some (unescape body))) \<and>
      (stack s \<noteq> [] \<longrightarrow> offset s' = offset s \<and> line s' = line s))"
proof (intro conjI impI)
  show "line (tokenize src) = 1" by (simp add: tokenize_def)
next
  assume a: "next_tok s = Inr (t, s')"
  show "source s' = source s"
  proof (cases "stack s")
    case (Cons t0 ts)
    with a show ?thesis by (auto simp: next_tok_def)
  next
    case Nil
    show ?thesis
    proof (cases "truthy (stringDelim s)")
      case True
      then obtain d where "stringDelim s = Some d" "d \<noteq> []"
        by (auto simp: truthy_def split: option.splits)
      with a Nil have "readString d s = Inr (t, s')" by (simp add: next_tok_def)
      from readString_spec [OF this] show ?thesis by simp
    next
      case False
      with a Nil have "next_scan s = Inr (t, s')"
        by (auto simp: next_tok_def truthy_def split: option.splits)
      from next_scan_spec [OF this] show ?thesis by simp
    qed
  qed
next
  assume a: "next_tok s = Inr (t, s')" and b: "stack s = [] \<and> \<not> truthy (stringDelim s)"
  then have "next_scan s = Inr (t, s')"
    by (auto simp: next_tok_def truthy_def split: option.splits)
  from next_scan_spec [OF this]
  have f: "source s' = source s" "offset s \<le> offset s'" "line_excess s' = line_excess s"
    by simp_all
  show "offset s \<le> offset s'" by (rule f(2))
  show "line s' = line s + newlines (slice (source s) (offset s) (offset s'))"
    using f newlines_slice [OF f(2), of "source s"] by (simp add: line_excess_def)
next
  assume a: "next_tok s = Inr (t, s')" and b: "stack s = [] \<and> truthy (stringDelim s)"
  then obtain d where "stringDelim s = Some d" "d \<noteq> []"
    by (auto simp: truthy_def split: option.splits)
  with a b have "readString d s = Inr (t, s')" by (simp add: next_tok_def)
  note r = readString_spec [OF this]
  show "line s' = line s" using r by simp
  show "offset s < offset s'" using r by simp
  show "\<exists>q pre body rest. (q = dquote \<or> q = squote) \<and>
      source s = pre @ q # body @ q # rest \<and> offset s - 1 \<le> length pre \<and>
      offset s' = length pre + length body + 2 \<and> t = Some (unescape body)"
    using r by simp
next
  assume a: "next_tok s = Inr (t, s')" and b: "stack s \<noteq> []"
  then show "offset s' = offset s" "line s' = line s"
    by (auto simp: next_tok_def split: list.splits)
qed

theorem line_counts_scanned_newlines_witness:
  "next_tok (tokenize (js ''/*'' @ LF # js ''*/'' @ LF # js ''a'')) =
     Inr (Some (js ''a''), (tokenize (js ''/*'' @ LF # js ''*/'' @ LF # js ''a''))\<lparr>offset := 7, line := 3\<rparr>) \<and>
   newlines (slice (js ''/*'' @ LF # js ''*/'' @ LF # js ''a'') 0 7) = 2 \<and>
   line (tokenize (js ''/*'' @ LF # js ''*/'' @ LF # js ''a'')) = 1 \<and>
   next_tok ((tokenize [dquote, LF, dquote])\<lparr>offset := 1, stringDelim := Some [dquote]\<rparr>) =
     Inr (Some [LF], (tokenize [dquote, LF, dquote])\<lparr>offset := 3, stack := [[dquote]]\<rparr>) \<and>
   line ((tokenize [dquote, LF, dquote])\<lparr>offset := 3, stack := [[dquote]]\<rparr>) =
     line ((tokenize [dquote, LF, dquote])\<lparr>offset := 1, stringDelim := Some [dquote]\<rparr>) \<and>
   offset ((tokenize [dquote, LF, dquote])\<lparr>offset := 1, stringDelim := Some [dquote]\<rparr>) <
     offset ((tokenize [dquote, LF, dquote])\<lparr>offset := 3, stack := [[dquote]]\<rparr>)"
proof -
  let ?s = "tokenize (js ''/*'' @ LF # js ''*/'' @ LF # js ''a'')"
  let ?u = "(tokenize [dquote, LF, dquote])\<lparr>offset := 1, stringDelim := Some [dquote]\<rparr>"
  let ?v = "(tokenize [dquote, LF, dquote])\<lparr>offset := 3, stack := [[dquote]]\<rparr>"
  have n: "next_tok ?s = Inr (Some (js ''a''), ?s\<lparr>offset := 7, line := 3\<rparr>)" by code_simp
  have 1: "stack ?s = [] \<and> \<not> truthy (stringDelim ?s)" by (simp add: tokenize_def truthy_def)
  from line_counts_scanned_newlines [of "js ''/*'' @ LF # js ''*/'' @ LF # js ''a''" ?s
      "Some (js ''a'')" "?s\<lparr>offset := 7, line := 3\<rparr>"] n 1
  have l1: "line ?s = 1" and "line (?s\<lparr>offset := 7, line := 3\<rparr>) =
      line ?s + newlines (slice (source ?s) (offset ?s) (offset (?s\<lparr>offset := 7, line := 3\<rparr>)))"
    by blast+
  then have a: "newlines (slice (js ''/*'' @ LF # js ''*/'' @ LF # js ''a'') 0 7) = 2"
    by (simp add: tokenize_def)
  have m: "next_tok ?u = Inr (Some [LF], ?v)" by code_simp
  have 2: "stack ?u = [] \<and> truthy (stringDelim ?u)" by (simp add: tokenize_def truthy_def)
  from line_counts_scanned_newlines [of _ ?u "Some [LF]" ?v] m 2
  have b: "line ?v = line ?u" "offset ?u < offset ?v" by blast+
  from n a l1 m b show ?thesis by blast
qed

section \<open>A line comment that ends the source\<close>

text \<open>
  C6 on the source \<^verbatim>\<open>/// hello\<close>, a documentation comment that no newline ends:
  \<^verbatim>\<open>next\<close> returns \<^verbatim>\<open>null\<close> without an error, but through the \<^verbatim>\<open>return null\<close> inside
  the scanning loop, in front of \<^verbatim>\<open>setComment\<close>: the comment slot stays empty and the line
  counter stays at 1. With a newline behind the same comment the text is captured.
\<close>

theorem unterminated_doc_comment_lost:
  "next_tok (tokenize (js ''/// hello'')) =
     Inr (None, (tokenize (js ''/// hello''))\<lparr>offset := 9\<rparr>) \<and>
   commentText ((tokenize (js ''/// hello''))\<lparr>offset := 9\<rparr>) = None \<and>
   line ((tokenize (js ''/// hello''))\<lparr>offset := 9\<rparr>) = 1 \<and>
   next_tok (tokenize (js ''/// hello'' @ [LF])) =
     Inr (None, (tokenize (js ''/// hello'' @ [LF]))
       \<lparr>offset := 10, line := 2, commentType := Some (js ''/''),
        commentText := Some (js ''hello''), commentLine := 1\<rparr>)"
  by code_simp

section \<open>A slash that opens no comment\<close>

lemma scan_slash:
  assumes "skip_whitespace s = (s1, False)" and "charAt s1 (offset s1) = [slash]"
  shows "offset s1 + 1 = length (source s1) \<Longrightarrow>
           scan s = Throw (Illegal (js ''comment'') (line s1))"
    and "offset s1 + 1 \<noteq> length (source s1) \<Longrightarrow> charAt s1 (offset s1 + 1) \<noteq> [slash] \<Longrightarrow>
           charAt s1 (offset s1 + 1) \<noteq> [star] \<Longrightarrow>
           scan s = Return (Some [slash]) (s1\<lparr>offset := offset s1 + 1\<rparr>)"
proof -
  have "offset s \<le> offset s1" "source s1 = source s"
    using skip_whitespace_source_offset [OF assms(1)] by simp_all
  moreover have "offset s1 < length (source s1)"
    using assms(2) by (simp add: charAt_def String_charAt_def split: if_splits)
  ultimately have ne: "offset s \<noteq> length (source s)" by simp
  show "offset s1 + 1 = length (source s1) \<Longrightarrow>
      scan s = Throw (Illegal (js ''comment'') (line s1))"
    using assms ne by (subst scan.simps) (simp add: Let_def illegal_def)
  show "offset s1 + 1 \<noteq> length (source s1) \<Longrightarrow> charAt s1 (offset s1 + 1) \<noteq> [slash] \<Longrightarrow>
      charAt s1 (offset s1 + 1) \<noteq> [star] \<Longrightarrow>
      scan s = Return (Some [slash]) (s1\<lparr>offset := offset s1 + 1\<rparr>)"
    using assms ne by (subst scan.simps) (simp add: Let_def)
qed

text \<open>
  C7, as stated: a \<^verbatim>\<open>/\<close> that is followed by neither \<^verbatim>\<open>/\<close> nor \<^verbatim>\<open>*\<close> is returned as
  the token \<^verbatim>\<open>/\<close>, also when it is the last character of the source. On the source
  \<^verbatim>\<open>/\<close> the call raises instead: \<^verbatim>\<open>if (++offset === length) throw illegal("comment")\<close>.
\<close>

theorem lone_slash_at_end_counterexample:
  "next_tok (tokenize (js ''/'')) = Inl (Illegal (js ''comment'') 1)"
  by code_simp

text \<open>
  C7, amended: where the whitespace loop of a pass of \<^verbatim>\<open>next\<close> stops at a \<^verbatim>\<open>/\<close> (the
  first pass or one behind a comment), the pass returns the token \<^verbatim>\<open>/\<close> and leaves the
  cursor behind it when a character follows that is neither \<^verbatim>\<open>/\<close> nor \<^verbatim>\<open>*\<close>; when the
  \<^verbatim>\<open>/\<close> is the last character of the source, the pass raises the illegal-comment error
  with the current line. That is the result of \<^verbatim>\<open>next\<close> itself when no token is pushed
  back and no delimiter is pending.
\<close>

theorem lone_slash_token:
  assumes "skip_whitespace s = (s1, False)" and "charAt s1 (offset s1) = [slash]"
  shows "((\<exists>c. charAt s1 (offset s1 + 1) = [c] \<and> c \<noteq> slash \<and> c \<noteq> star) \<longrightarrow>
            scan s = Return (Some [slash]) (s1\<lparr>offset := offset s1 + 1\<rparr>) \<and>
            (stack s = [] \<and> \<not> truthy (stringDelim s) \<longrightarrow>
               next_tok s = Inr (Some [slash], s1\<lparr>offset := offset s1 + 1\<rparr>))) \<and>
         (offset s1 + 1 = length (source s1) \<longrightarrow>
            scan s = Throw (Illegal (js ''comment'') (line s1)) \<and>
            (stack s = [] \<and> \<not> truthy (stringDelim s) \<longrightarrow>
               next_tok s = Inl (Illegal (js ''comment'') (line s1))))"
proof -
  have nt: "next_tok s = next_scan s" if "stack s = []" "\<not> truthy (stringDelim s)"
    using that by (auto simp: next_tok_def truthy_def split: option.splits)
  have a: "offset s1 + 1 = length (source s1) \<Longrightarrow>
      scan s = Throw (Illegal (js ''comment'') (line s1))"
    by (rule scan_slash(1) [OF assms(1,2)])
  have b: "scan s = Return (Some [slash]) (s1\<lparr>offset := offset s1 + 1\<rparr>)"
    if "charAt s1 (offset s1 + 1) = [c]" "c \<noteq> slash" "c \<noteq> star" for c
  proof -
    have "offset s1 + 1 < length (source s1)"
      using that(1) by (simp add: charAt_def String_charAt_def split: if_splits)
    then show ?thesis
      using that by (intro scan_slash(2) [OF assms(1,2)]) simp_all
  qed
  show ?thesis using a b by (auto simp: nt next_scan_def)
qed

theorem lone_slash_token_witness:
  "next_tok (tokenize (js ''/* */ /a'')) =
     Inr (Some (js ''/''), (tokenize (js ''/* */ /a''))\<lparr>offset := 7\<rparr>) \<and>
   next_tok (tokenize (js '' /'')) = Inl (Illegal (js ''comment'') 1)"
proof -
  let ?s = "tokenize (js ''/* */ /a'')"
  let ?t = "?s\<lparr>offset := 5\<rparr>"
  let ?u = "tokenize (js '' /'')"
  have 0: "scan ?s = scan ?t" by code_simp
  have 1: "skip_whitespace ?t = (?s\<lparr>offset := 6\<rparr>, False)" by code_simp
  have 2: "charAt (?s\<lparr>offset := 6\<rparr>) (offset (?s\<lparr>offset := 6\<rparr>)) = [slash]" by code_simp
  have 3: "\<exists>c. charAt (?s\<lparr>offset := 6\<rparr>) (offset (?s\<lparr>offset := 6\<rparr>) + 1) = [c] \<and> c \<noteq> slash \<and> c \<noteq> star"
    by (simp add: charAt_def String_charAt_def tokenize_def js_def)
  from lone_slash_token [OF 1 2] 3
  have "scan ?t = Return (Some [slash]) (?s\<lparr>offset := 7\<rparr>)" by simp
  with 0 have a: "next_tok ?s = Inr (Some (js ''/''), ?s\<lparr>offset := 7\<rparr>)"
    by (simp add: next_tok_def next_scan_def tokenize_def js_def)
  have 4: "skip_whitespace ?u = (?u\<lparr>offset := 1\<rparr>, False)" by code_simp
  have 5: "charAt (?u\<lparr>offset := 1\<rparr>) (offset (?u\<lparr>offset := 1\<rparr>)) = [slash]" by code_simp
  have 6: "stack ?u = [] \<and> \<not> truthy (stringDelim ?u)" by code_simp
  have 7: "offset (?u\<lparr>offset := 1\<rparr>) + 1 = length (source (?u\<lparr>offset := 1\<rparr>))"
    by (simp add: js_def tokenize_def)
  from lone_slash_token [OF 4 5] 6 7
  have b: "next_tok ?u = Inl (Illegal (js ''comment'') 1)"
    by (simp add: tokenize_def)
  from a b show ?thesis by simp
qed

section \<open>Skipping an expected token\<close>

text \<open>
  C8, as stated: when the next token is not the expected one, \<^verbatim>\<open>skip(expected, true)\<close>
  returns \<^verbatim>\<open>false\<close> and leaves the lexer state untouched. On the source of a newline and
  \<^verbatim>\<open>;\<close> the call returns \<^verbatim>\<open>false\<close>, but its \<^verbatim>\<open>peek\<close> has scanned the token: the cursor
  has moved from 0 to 2, \<^verbatim>\<open>line()\<close> has gone from 1 to 2 and the token sits on the stack.
\<close>

theorem skip_optional_counterexample:
  "skip (js ''}'') True (tokenize (LF # js '';'')) =
     Inr (False, (tokenize (LF # js '';''))\<lparr>offset := 2, line := 2, stack := [js '';'']\<rparr>) \<and>
   (tokenize (LF # js '';''))\<lparr>offset := 2, line := 2, stack := [js '';'']\<rparr> \<noteq>
     tokenize (LF # js '';'') \<and>
   line (tokenize (LF # js '';'')) = 1"
  by code_simp

text \<open>
  C8, amended: take a state with a token pushed back or with no delimiter pending, in
  which \<^verbatim>\<open>next()\<close> would return the token \<open>actual\<close> (\<^verbatim>\<open>null\<close> at the end of input) and
  leave the state \<open>s'\<close>. When \<open>actual\<close> is not the expected token, \<^verbatim>\<open>skip(expected, false)\<close>
  raises the unexpected-token error that names the actual and the expected token and
  carries the current line, and \<^verbatim>\<open>skip(expected, true)\<close> returns \<^verbatim>\<open>false\<close> without raising
  and leaves the state of \<^verbatim>\<open>peek\<close>: the state itself when a token was pushed back already,
  otherwise \<open>s'\<close> with the token pushed back; there a further \<^verbatim>\<open>peek()\<close> reports the same
  token and changes nothing, and \<^verbatim>\<open>next()\<close> returns it and leaves \<open>s'\<close>. When \<open>actual\<close> is
  the expected token, \<^verbatim>\<open>skip\<close> consumes it, returns \<^verbatim>\<open>true\<close> and leaves \<open>s'\<close>. The
  states with a delimiter pending behind an empty stack, where \<^verbatim>\<open>peek\<close> does not report
  the token of \<^verbatim>\<open>next\<close>, are left out.
\<close>

theorem skip_next_token:
  assumes "stack s \<noteq> [] \<or> \<not> truthy (stringDelim s)"
    and "next_tok s = Inr (actual, s')"
  shows "(actual \<noteq> Some expected \<longrightarrow>
            skip expected False s = Inl (Illegal (token_subject actual expected) (line s')) \<and>
            skip expected True s = Inr (False, peeked s actual s') \<and>
            peek (peeked s actual s') = Inr (actual, peeked s actual s') \<and>
            next_tok (peeked s actual s') = Inr (actual, s')) \<and>
         (actual = Some expected \<longrightarrow> skip expected optional s = Inr (True, s')) \<and>
         (stack s \<noteq> [] \<longrightarrow> peeked s actual s' = s)"
proof -
  note p = peek_peeked [OF assms]
  have a: "actual \<noteq> Some expected \<Longrightarrow>
      skip expected False s = Inl (Illegal (token_subject actual expected) (line s')) \<and>
      skip expected True s = Inr (False, peeked s actual s')"
    using p(1,3) by (simp add: skip_def illegal_def)
  have b: "actual = Some expected \<Longrightarrow> skip expected optional s = Inr (True, s')"
    using p(1,2) by (simp add: skip_def)
  have c: "stack s \<noteq> [] \<Longrightarrow> peeked s actual s' = s" by (simp add: peeked_def)
  from a b c peek_again [OF p(1)] p(2) show ?thesis by blast
qed

theorem skip_next_token_witness:
  "next_tok (tokenize (LF # js '';'')) =
     Inr (Some (js '';''), (tokenize (LF # js '';''))\<lparr>offset := 2, line := 2\<rparr>) \<and>
   skip (js ''}'') False (tokenize (LF # js '';'')) =
     Inl (Illegal (js ''token ';', '}' expected'') 2) \<and>
   skip (js ''}'') True (tokenize (LF # js '';'')) =
     Inr (False, (tokenize (LF # js '';''))\<lparr>offset := 2, line := 2, stack := [js '';'']\<rparr>) \<and>
   peek ((tokenize (LF # js '';''))\<lparr>offset := 2, line := 2, stack := [js '';'']\<rparr>) =
     Inr (Some (js '';''), (tokenize (LF # js '';''))\<lparr>offset := 2, line := 2, stack := [js '';'']\<rparr>) \<and>
   next_tok ((tokenize (LF # js '';''))\<lparr>offset := 2, line := 2, stack := [js '';'']\<rparr>) =
     Inr (Some (js '';''), (tokenize (LF # js '';''))\<lparr>offset := 2, line := 2\<rparr>) \<and>
   skip (js '';'') False (tokenize (LF # js '';'')) =
     Inr (True, (tokenize (LF # js '';''))\<lparr>offset := 2, line := 2\<rparr>)"
proof -
  let ?s = "tokenize (LF # js '';'')"
  let ?t = "?s\<lparr>offset := 2, line := 2\<rparr>"
  let ?p = "?s\<lparr>offset := 2, line := 2, stack := [js '';'']\<rparr>"
  have h: "stack ?s \<noteq> [] \<or> \<not> truthy (stringDelim ?s)"
    by (simp add: tokenize_def truthy_def)
  have n: "next_tok ?s = Inr (Some (js '';''), ?t)" by code_simp
  have pk: "peeked ?s (Some (js '';'')) ?t = ?p" by code_simp
  have ts: "token_subject (Some (js '';'')) (js ''}'') = js ''token ';', '}' expected''"
    by code_simp
  have ne: "Some (js '';'') \<noteq> Some (js ''}'')" by (simp add: js_def)
  have l: "line ?t = 2" by simp
  from skip_next_token [OF h n, of "js ''}''" False] skip_next_token [OF h n, of "js '';''" False]
    ne n pk ts l show ?thesis
    by auto
qed

section \<open>End of input\<close>

text \<open>
  C9: once \<^verbatim>\<open>next\<close> has returned \<^verbatim>\<open>null\<close>, every further call of \<^verbatim>\<open>next\<close> returns
  \<^verbatim>\<open>null\<close> again and leaves the state as it is, however many calls follow.
\<close>

theorem end_of_input_stable:
  assumes "next_tok s = Inr (None, s')"
  shows "next_tok_iter n s' = Inr (None, s')"
proof (induction n)
  case 0
  show ?case using end_of_input_fixpoint [OF assms] by simp
next
  case (Suc n)
  then show ?case using end_of_input_fixpoint [OF assms] by simp
qed

theorem end_of_input_stable_witness:
  "next_tok (tokenize (js ''// x'')) = Inr (None, (tokenize (js ''// x''))\<lparr>offset := 4\<rparr>) \<and>
   next_tok_iter 7 ((tokenize (js ''// x''))\<lparr>offset := 4\<rparr>) =
     Inr (None, (tokenize (js ''// x''))\<lparr>offset := 4\<rparr>)"
proof -
  have h: "next_tok (tokenize (js ''// x'')) = Inr (None, (tokenize (js ''// x''))\<lparr>offset := 4\<rparr>)"
    by code_simp
  from end_of_input_stable [OF h, of 7] h show ?thesis by simp
qed

section \<open>A documentation comment without text\<close>

text \<open>
  C10, as stated: with an empty captured text, \<^verbatim>\<open>cmnt\<close> returns \<^verbatim>\<open>null\<close> in both forms
  and does not clear the slot. On the source \<^verbatim>\<open>/** */ foo /// real\<close>, a newline and
  \<^verbatim>\<open>bar\<close>, behind \<^verbatim>\<open>foo\<close>, the slot holds the empty text of the block comment with line 1;
  \<^verbatim>\<open>cmnt(1)\<close> finds the text falsy, calls \<^verbatim>\<open>peek\<close>, which captures the line comment on
  line 1, and returns \<^verbatim>\<open>real\<close> and clears the slot.
\<close>

theorem cmnt_trailing_empty_text_counterexample:
  "next_tok (tokenize (js ''/** */ foo /// real'' @ LF # js ''bar'')) =
     Inr (Some (js ''foo''), (tokenize (js ''/** */ foo /// real'' @ LF # js ''bar''))
       \<lparr>offset := 10, commentType := Some (js ''*''), commentText := Some [],
        commentLine := 1\<rparr>) \<and>
   cmnt (Some 1) ((tokenize (js ''/** */ foo /// real'' @ LF # js ''bar''))
       \<lparr>offset := 10, commentType := Some (js ''*''), commentText := Some [],
        commentLine := 1\<rparr>) =
     Inr (Some (js ''real''), (tokenize (js ''/** */ foo /// real'' @ LF # js ''bar''))
       \<lparr>offset := 23, line := 2, stack := [js ''bar'']\<rparr>)"
  by code_simp

text \<open>
  C10, amended: with an empty captured text, \<^verbatim>\<open>cmnt()\<close> with no argument returns
  \<^verbatim>\<open>null\<close> and changes nothing, whatever the lines are. \<^verbatim>\<open>cmnt(trailingLine)\<close> first
  calls \<^verbatim>\<open>peek()\<close>, the empty text counting as no comment: an error of \<^verbatim>\<open>peek\<close> is the
  error of \<^verbatim>\<open>cmnt\<close>; when the text of the slot is still empty or absent behind that
  \<^verbatim>\<open>peek\<close> (in particular when a token was pushed back already, so that \<^verbatim>\<open>peek\<close> scans
  nothing), \<^verbatim>\<open>cmnt\<close> returns \<^verbatim>\<open>null\<close> and leaves the state of \<^verbatim>\<open>peek\<close>, the slot not
  cleared.
\<close>

theorem cmnt_empty_text:
  assumes "commentText s = Some []"
  shows "cmnt None s = Inr (None, s) \<and>
         (stack s \<noteq> [] \<longrightarrow> cmnt (Some l) s = Inr (None, s)) \<and>
         (\<forall>e. peek s = Inl e \<longrightarrow> cmnt (Some l) s = Inl e) \<and>
         (\<forall>t s1. peek s = Inr (t, s1) \<and> \<not> truthy (commentText s1) \<longrightarrow>
            cmnt (Some l) s = Inr (None, s1))"
proof -
  have f: "\<not> truthy (commentText s)" using assms by (simp add: truthy_def)
  have a: "cmnt None s = Inr (None, s)"
    using f by (simp add: cmnt_def cmnt_result_cases truthy_def)
  have b: "cmnt (Some l) s = Inl e" if "peek s = Inl e" for e
    using f that by (simp add: cmnt_def)
  have c: "cmnt (Some l) s = Inr (None, s1)"
    if "peek s = Inr (t, s1)" "\<not> truthy (commentText s1)" for t s1
    using f that by (simp add: cmnt_def cmnt_result_cases truthy_def)
  have d: "cmnt (Some l) s = Inr (None, s)" if "stack s \<noteq> []"
    using c [of "stack0 s" s] peek_nonempty [OF that] f by simp
  from a b c d show ?thesis by blast
qed

theorem cmnt_empty_text_witness:
  "cmnt None ((tokenize (js ''///'' @ LF # js ''foo''))
      \<lparr>offset := 7, line := 2, commentType := Some (js ''/''), commentText := Some [],
       commentLine := 1\<rparr>) =
     Inr (None, (tokenize (js ''///'' @ LF # js ''foo''))
      \<lparr>offset := 7, line := 2, commentType := Some (js ''/''), commentText := Some [],
       commentLine := 1\<rparr>) \<and>
   cmnt (Some 1) ((tokenize (js ''///'' @ LF # js ''foo''))
      \<lparr>offset := 7, line := 2, commentType := Some (js ''/''), commentText := Some [],
       commentLine := 1\<rparr>) =
     Inr (None, (tokenize (js ''///'' @ LF # js ''foo''))
      \<lparr>offset := 7, line := 2, commentType := Some (js ''/''), commentText := Some [],
       commentLine := 1\<rparr>)"
proof -
  let ?s = "(tokenize (js ''///'' @ LF # js ''foo''))
      \<lparr>offset := 7, line := 2, commentType := Some (js ''/''), commentText := Some [],
       commentLine := 1\<rparr>"
  have 1: "commentText ?s = Some []" by simp
  have 2: "peek ?s = Inr (None, ?s)" by code_simp
  have 3: "\<not> truthy (commentText ?s)" by (simp add: truthy_def)
  from cmnt_empty_text [OF 1, of 1] 2 3 show ?thesis by blast
qed

end
